theory Spec2Isabelle
  imports Main "HOL-Library.Sublist"
begin

section \<open>Python strings\<close>

text \<open>
  A Python \<open>str\<close> is modelled as a \<open>string\<close>; a \<open>char\<close> stands for a code point below 256.
  The test \<open>sub in s\<close> on strings is \<^const>\<open>sublist\<close> (contiguous containment),
  \<open>s.startswith(p)\<close> is \<^const>\<open>prefix\<close>.
\<close>

definition NL :: char where
  "NL = CHR 0x0A"

text \<open>\<open>str.isspace\<close> on one character, which is also what \<open>\s\<close> matches in a \<open>str\<close> pattern.\<close>

definition is_space :: "char \<Rightarrow> bool" where
  "is_space c = ((of_char c :: nat) \<in> {9, 10, 11, 12, 13, 28, 29, 30, 31, 32, 133, 160})"

text \<open>\<open>s.strip()\<close>\<close>

definition strip :: "string \<Rightarrow> string" where
  "strip s = rev (dropWhile is_space (rev (dropWhile is_space s)))"

text \<open>\<open>s.split('\n')\<close>: never the empty list.\<close>

fun split_nl :: "string \<Rightarrow> string list" where
  "split_nl [] = [[]]"
| "split_nl (c # cs) =
     (if c = NL then [] # split_nl cs
      else (case split_nl cs of [] \<Rightarrow> [[c]] | l # ls \<Rightarrow> (c # l) # ls))"

text \<open>\<open>'\n'.join(xs)\<close>\<close>

fun join_nl :: "string list \<Rightarrow> string" where
  "join_nl [] = []"
| "join_nl [l] = l"
| "join_nl (l # ls) = l @ NL # join_nl ls"

text \<open>\<open>s[len(p):]\<close> when \<open>s\<close> starts with \<open>p\<close>.\<close>

fun strip_prefix :: "string \<Rightarrow> string \<Rightarrow> string option" where
  "strip_prefix [] s = Some s"
| "strip_prefix (p # ps) [] = None"
| "strip_prefix (p # ps) (c # cs) = (if p = c then strip_prefix ps cs else None)"

section \<open>preservation.py\<close>

datatype BlockType = GENERATED | MANUAL | UNMARKED

definition GENERATED_START :: string where
  "GENERATED_START = ''<!-- skillspec:generated:start -->''"

definition GENERATED_END :: string where
  "GENERATED_END = ''<!-- skillspec:generated:end -->''"

definition MANUAL_START :: string where
  "MANUAL_START = ''<!-- skillspec:manual:start -->''"

definition MANUAL_END :: string where
  "MANUAL_END = ''<!-- skillspec:manual:end -->''"

record ContentBlock =
  block_type :: BlockType
  content :: string
  section_name :: "string option"
  checksum :: "string option"
  start_line :: nat
  end_line :: nat

text \<open>The constructor call \<open>ContentBlock(block_type=..., content=..., section_name=...)\<close>.\<close>

definition mk_block :: "BlockType \<Rightarrow> string \<Rightarrow> string option \<Rightarrow> ContentBlock" where
  "mk_block ty c sec =
     \<lparr>block_type = ty, content = c, section_name = sec, checksum = None,
      start_line = 0, end_line = 0\<rparr>"

record ParsedDocument =
  blocks :: "ContentBlock list"
  raw_content :: string
  has_markers :: bool

definition get_manual_blocks :: "ParsedDocument \<Rightarrow> ContentBlock list" where
  "get_manual_blocks doc = filter (\<lambda>b. block_type b = MANUAL) (blocks doc)"

definition get_generated_blocks :: "ParsedDocument \<Rightarrow> ContentBlock list" where
  "get_generated_blocks doc = filter (\<lambda>b. block_type b = GENERATED) (blocks doc)"

record PreservationResult =
  success :: bool
  merged_content :: string
  manual_blocks_preserved :: nat
  generated_blocks_updated :: nat
  warnings :: "string list"
  errors :: "string list"

text \<open>
  The loop of \<open>parse_skill_md\<close> carries \<open>doc.blocks\<close>, \<open>current_block_lines\<close>,
  \<open>current_block_type\<close> and \<open>current_section\<close>; one iteration consumes one line.
\<close>

type_synonym parse_state = "ContentBlock list \<times> string list \<times> BlockType \<times> string option"

fun parse_step :: "parse_state \<Rightarrow> string \<Rightarrow> parse_state" where
  "parse_step (bs, cur, ty, sec) line =
     (if sublist GENERATED_START line then
        ((if cur \<noteq> [] then bs @ [mk_block ty (join_nl cur) sec] else bs), [], GENERATED, sec)
      else if sublist MANUAL_START line then
        ((if cur \<noteq> [] then bs @ [mk_block ty (join_nl cur) sec] else bs), [], MANUAL, sec)
      else if sublist GENERATED_END line \<or> sublist MANUAL_END line then
        (bs @ [mk_block ty (join_nl cur) sec], [], UNMARKED, sec)
      else
        (bs, cur @ [line], ty,
         (if prefix ''## '' line then Some (strip (drop 3 line))
          else if prefix ''# '' line then Some (strip (drop 2 line))
          else sec)))"

text \<open>The statement after the loop: save any remaining content.\<close>

fun parse_finish :: "parse_state \<Rightarrow> ContentBlock list" where
  "parse_finish (bs, cur, ty, sec) =
     (if cur \<noteq> [] then bs @ [mk_block ty (join_nl cur) sec] else bs)"

definition parse_skill_md :: "string \<Rightarrow> ParsedDocument" where
  "parse_skill_md c =
     (if \<not> (sublist GENERATED_START c \<or> sublist MANUAL_START c) then
        \<lparr>blocks = [mk_block UNMARKED c None], raw_content = c, has_markers = False\<rparr>
      else
        \<lparr>blocks = parse_finish (foldl parse_step ([], [], UNMARKED, None) (split_nl c)),
         raw_content = c, has_markers = True\<rparr>)"

text \<open>
  The pattern \<open>^(---\s*\n.*?\n---\s*\n)\<close> with \<open>re.DOTALL\<close>, applied with \<open>match\<close>.
  \<open>ws_then_nl s\<close> lists what is left of \<open>s\<close> after each way \<open>\s*\n\<close> matches a prefix
  of it, in the order the backtracking matcher tries them (the greedy star: longest first).
  \<open>lazy_close s\<close> does the same for \<open>.*?\n---\s*\n\<close> (the lazy star: shortest first).
  The match is the first alternative that succeeds.
\<close>

fun ws_then_nl :: "string \<Rightarrow> string list" where
  "ws_then_nl [] = []"
| "ws_then_nl (c # cs) =
     (if is_space c then ws_then_nl cs else []) @ (if c = NL then [cs] else [])"

fun lazy_close :: "string \<Rightarrow> string list" where
  "lazy_close [] = []"
| "lazy_close (c # cs) =
     (case strip_prefix (NL # ''---'') (c # cs) of
        Some r \<Rightarrow> ws_then_nl r
      | None \<Rightarrow> []) @ lazy_close cs"

text \<open>
  \<open>frontmatter_match s\<close> is \<open>Some (group(1), s[match.end():])\<close> when the pattern matches.
\<close>

definition frontmatter_match :: "string \<Rightarrow> (string \<times> string) option" where
  "frontmatter_match s =
     (case strip_prefix ''---'' s of
        None \<Rightarrow> None
      | Some r \<Rightarrow>
          (case concat (map lazy_close (ws_then_nl r)) of
             [] \<Rightarrow> None
           | rest # _ \<Rightarrow> Some (take (length s - length rest) s, rest)))"

definition wrap_generated_block :: "string \<Rightarrow> string" where
  "wrap_generated_block c =
     (case frontmatter_match c of
        Some (frontmatter, remaining_content) \<Rightarrow>
          frontmatter @ GENERATED_START @ [NL] @ remaining_content @ [NL] @ GENERATED_END
      | None \<Rightarrow> GENERATED_START @ [NL] @ c @ [NL] @ GENERATED_END)"

definition wrap_manual_block :: "string \<Rightarrow> string" where
  "wrap_manual_block c = MANUAL_START @ [NL] @ c @ [NL] @ MANUAL_END"

text \<open>
  The lines \<open>merge_with_preservation\<close> puts into \<open>merged_lines\<close>: first the branch on the
  front matter of the new content, then the body of the loop over the manual blocks.
\<close>

definition generated_lines :: "string \<Rightarrow> string list" where
  "generated_lines new_generated_content =
     (case frontmatter_match new_generated_content of
        Some (frontmatter, remaining_content) \<Rightarrow>
          [strip frontmatter, [], GENERATED_START, strip remaining_content, GENERATED_END]
      | None \<Rightarrow> [GENERATED_START, strip new_generated_content, GENERATED_END])"

definition manual_lines :: "ContentBlock \<Rightarrow> string list" where
  "manual_lines manual_block = [[], MANUAL_START, strip (content manual_block), MANUAL_END]"

definition merge_with_preservation :: "string \<Rightarrow> string \<Rightarrow> bool \<Rightarrow> PreservationResult" where
  "merge_with_preservation existing_content new_generated_content force =
     (if force then
        \<lparr>success = True, merged_content = new_generated_content,
         manual_blocks_preserved = 0, generated_blocks_updated = 0,
         warnings = [''Force mode: all existing content replaced''], errors = []\<rparr>
      else
        let existing_doc = parse_skill_md existing_content in
        if \<not> has_markers existing_doc then
          \<lparr>success = True, merged_content = wrap_generated_block new_generated_content,
           manual_blocks_preserved = 0, generated_blocks_updated = 0,
           warnings = [''No markers found in existing content - wrapped new content in generated markers''],
           errors = []\<rparr>
        else
          let manual_blocks = get_manual_blocks existing_doc;
              merged_lines =
                generated_lines new_generated_content @ concat (map manual_lines manual_blocks)
          in \<lparr>success = True, merged_content = join_nl merged_lines,
              manual_blocks_preserved = length manual_blocks, generated_blocks_updated = 1,
              warnings = [], errors = []\<rparr>)"

text \<open>Notions used to state and prove the properties of the reconciler.\<close>

definition markers :: "string list" where
  "markers = [GENERATED_START, MANUAL_START, GENERATED_END, MANUAL_END]"

definition marker_free :: "string \<Rightarrow> bool" where
  "marker_free s = (\<forall>m \<in> set markers. \<not> sublist m s)"

definition manual_contents :: "ContentBlock list \<Rightarrow> string list" where
  "manual_contents bs = map content (filter (\<lambda>b. block_type b = MANUAL) bs)"

definition blocks_marker_free :: "parse_state \<Rightarrow> bool" where
  "blocks_marker_free st =
     (case st of (bs, cur, ty, sec) \<Rightarrow>
        (\<forall>b \<in> set bs. marker_free (content b)) \<and> (\<forall>l \<in> set cur. marker_free l))"

section \<open>Python values\<close>

text \<open>
  The values a parsed YAML document is made of. A \<open>dict\<close> is an association list in insertion
  order with string keys; numbers are integers.
\<close>

datatype pyval =
    PNone
  | PBool bool
  | PInt int
  | PStr string
  | PList "pyval list"
  | PDict "(string \<times> pyval) list"

type_synonym pydict = "(string \<times> pyval) list"

text \<open>\<open>k in d\<close>, \<open>d.get(k, default)\<close> and the update \<open>{**d, k: v}\<close>.\<close>

definition dict_has :: "pydict \<Rightarrow> string \<Rightarrow> bool" where
  "dict_has d k = (k \<in> fst ` set d)"

definition dict_get :: "pydict \<Rightarrow> string \<Rightarrow> pyval \<Rightarrow> pyval" where
  "dict_get d k dflt = (case map_of d k of Some v \<Rightarrow> v | None \<Rightarrow> dflt)"

fun dict_set :: "pydict \<Rightarrow> string \<Rightarrow> pyval \<Rightarrow> pydict" where
  "dict_set [] k v = [(k, v)]"
| "dict_set ((k', v') # d) k v = (if k' = k then (k, v) # d else (k', v') # dict_set d k v)"

text \<open>\<open>str(n)\<close> for a natural number, as an f-string renders it.\<close>

definition digit_char :: "nat \<Rightarrow> char" where
  "digit_char n = ''0123456789'' ! n"

fun str_of_nat :: "nat \<Rightarrow> string" where
  "str_of_nat n = (if n < 10 then [digit_char n] else str_of_nat (n div 10) @ [digit_char (n mod 10)])"

declare str_of_nat.simps [simp del]

text \<open>
  \<open>repr(v)\<close> and \<open>str(v)\<close>: a string is written between single quotes (double quotes when
  it holds a single quote and no double quote), with backslash escapes for the quote, the
  backslash and the characters that are not printable.
\<close>

definition BS :: char where
  "BS = CHR 0x5C"

definition hex_digit :: "nat \<Rightarrow> char" where
  "hex_digit n = ''0123456789abcdef'' ! n"

definition repr_char :: "char \<Rightarrow> char \<Rightarrow> string" where
  "repr_char q c =
     (let n = (of_char c :: nat)
      in if c = q \<or> c = BS then [BS, c]
         else if n = 9 then [BS, CHR ''t'']
         else if n = 10 then [BS, CHR ''n'']
         else if n = 13 then [BS, CHR ''r'']
         else if n < 32 \<or> n = 127 \<or> (128 \<le> n \<and> n \<le> 160) \<or> n = 173
              then [BS, CHR ''x'', hex_digit (n div 16), hex_digit (n mod 16)]
         else [c])"

definition repr_str :: "string \<Rightarrow> string" where
  "repr_str s =
     (let q = (if CHR 0x27 \<in> set s \<and> CHR 0x22 \<notin> set s then CHR 0x22 else CHR 0x27)
      in [q] @ concat (map (repr_char q) s) @ [q])"

fun join_comma :: "string list \<Rightarrow> string" where
  "join_comma [] = []"
| "join_comma [s] = s"
| "join_comma (s # ss) = s @ '', '' @ join_comma ss"

fun py_repr :: "pyval \<Rightarrow> string"
  and py_repr_list :: "pyval list \<Rightarrow> string list"
  and py_repr_items :: "(string \<times> pyval) list \<Rightarrow> string list" where
  "py_repr PNone = ''None''"
| "py_repr (PBool b) = (if b then ''True'' else ''False'')"
| "py_repr (PInt n) = (if n < 0 then ''-'' @ str_of_nat (nat (- n)) else str_of_nat (nat n))"
| "py_repr (PStr s) = repr_str s"
| "py_repr (PList l) = ''['' @ join_comma (py_repr_list l) @ '']''"
| "py_repr (PDict d) = ''{'' @ join_comma (py_repr_items d) @ ''}''"
| "py_repr_list [] = []"
| "py_repr_list (v # vs) = py_repr v # py_repr_list vs"
| "py_repr_items [] = []"
| "py_repr_items ((k, v) # kvs) = (repr_str k @ '': '' @ py_repr v) # py_repr_items kvs"

definition py_str :: "pyval \<Rightarrow> string" where
  "py_str v = (case v of PStr s \<Rightarrow> s | _ \<Rightarrow> py_repr v)"

lemma py_str_PStr [simp]: "py_str (PStr s) = s"
  by (simp add: py_str_def)


section \<open>models.py\<close>


fun ensure_rule_ids :: "pyval list \<Rightarrow> nat \<Rightarrow> pyval list" where
  "ensure_rule_ids [] start_index = []"
| "ensure_rule_ids (rule # rest) start_index =
     (case rule of
        PDict d \<Rightarrow>
          if \<not> dict_has d ''id''
          then PDict (dict_set d ''id'' (PStr (''rule_'' @ str_of_nat start_index)))
          else rule
      | _ \<Rightarrow> rule) # ensure_rule_ids rest (Suc start_index)"

text \<open>The loop over \<open>values.items()\<close> of the legacy key-value format.\<close>

fun legacy_rules :: "pydict \<Rightarrow> pyval list" where
  "legacy_rules [] = []"
| "legacy_rules ((key, val) # items) =
     (if key = ''_config'' then legacy_rules items
      else (case val of
              PDict d \<Rightarrow>
                (if \<not> dict_has d ''id'' then PDict (dict_set d ''id'' (PStr key)) else val)
                # legacy_rules items
            | _ \<Rightarrow> legacy_rules items))"

definition extract_rules :: "pyval \<Rightarrow> pyval" where
  "extract_rules values =
     (case values of
        PDict d \<Rightarrow>
          let config = dict_get d ''_config'' (PDict []) in
          if dict_has d ''rules'' then
            let rules = dict_get d ''rules'' PNone;
                rules = (case rules of PList l \<Rightarrow> PList (ensure_rule_ids l 0) | _ \<Rightarrow> rules)
            in PDict [(''_config'', config), (''rules'', rules)]
          else PDict [(''_config'', config), (''rules'', PList (legacy_rules d))]
      | PList l \<Rightarrow> PDict [(''_config'', PDict []), (''rules'', PList (ensure_rule_ids l 0))]
      | _ \<Rightarrow> values)"

text \<open>A value that \<open>ensure_rule_ids\<close> leaves alone: not a dict, or a dict with an \<open>id\<close>.\<close>

definition has_id :: "pyval \<Rightarrow> bool" where
  "has_id v = (case v of PDict d \<Rightarrow> dict_has d ''id'' | _ \<Rightarrow> True)"

text \<open>A string between single quotes, as the f-strings of the messages write it.\<close>

definition quoted :: "string \<Rightarrow> string" where
  "quoted s = [CHR 0x27] @ s @ [CHR 0x27]"

text \<open>The truth value of a Python value, and whether a set can hold it.\<close>

fun truthy :: "pyval \<Rightarrow> bool" where
  "truthy PNone = False"
| "truthy (PBool b) = b"
| "truthy (PInt n) = (n \<noteq> 0)"
| "truthy (PStr s) = (s \<noteq> [])"
| "truthy (PList l) = (l \<noteq> [])"
| "truthy (PDict d) = (d \<noteq> [])"

fun hashable :: "pyval \<Rightarrow> bool" where
  "hashable (PList l) = False"
| "hashable (PDict d) = False"
| "hashable _ = True"

text \<open>The exceptions that the modelled code raises.\<close>

datatype py_exception = TypeError | AttributeError | ValueError string

text \<open>
  The typed models that \<open>SkillSpec.validate_cross_references\<close> reads, as pydantic builds them.
  \<open>decision_rules\<close> is \<open>Union[Dict[str, Any], List[DecisionRule]]\<close>. The fields of \<open>SkillSpec\<close>
  that the validator does not read (\<open>skill\<close>, \<open>inputs\<close>, \<open>output_contract\<close> and the optional
  sections) are left out.
\<close>

record DecisionRule =
  rule_id :: "string option"
  priority :: int
  is_default :: bool
  when_cond :: pyval
  then_action :: pydict

record ExecutionStep =
  step_id :: string
  action :: string
  step_output :: "string option"
  based_on :: "string list option"
  condition :: "string option"

record FailureMode =
  code :: string
  retryable :: bool
  description :: "string option"
  recovery_hint :: "string option"

record EdgeCase =
  case_name :: string
  expected :: pydict
  input_example :: pyval
  covers_rule :: "string option"
  covers_failure :: "string option"

datatype decision_rules_value = RulesDict pydict | RulesList "DecisionRule list"

record SkillSpec =
  spec_version :: string
  preconditions :: "string list"
  non_goals :: "string list"
  decision_rules :: decision_rules_value
  steps :: "ExecutionStep list"
  failure_modes :: "FailureMode list"
  edge_cases :: "EdgeCase list"

text \<open>
  The three ways \<open>validate_cross_references\<close> collects \<open>rule_ids\<close>. Adding an unhashable value
  to the set raises \<open>TypeError\<close>.
\<close>

fun rules_key_ids :: "pyval list \<Rightarrow> pyval list \<Rightarrow> py_exception + pyval list" where
  "rules_key_ids [] rule_ids = Inr rule_ids"
| "rules_key_ids (rule # rest) rule_ids =
     (case rule of
        PDict d \<Rightarrow>
          if truthy (dict_get d ''id'' PNone) then
            (if hashable (dict_get d ''id'' PNone)
             then rules_key_ids rest (rule_ids @ [dict_get d ''id'' PNone])
             else Inl TypeError)
          else rules_key_ids rest rule_ids
      | _ \<Rightarrow> rules_key_ids rest rule_ids)"

fun keyed_ids :: "pydict \<Rightarrow> pyval list \<Rightarrow> py_exception + pyval list" where
  "keyed_ids [] rule_ids = Inr rule_ids"
| "keyed_ids ((key, val) # items) rule_ids =
     (case val of
        PDict d \<Rightarrow>
          if key \<noteq> ''_config'' then
            (if hashable (dict_get d ''id'' (PStr key))
             then keyed_ids items (rule_ids @ [dict_get d ''id'' (PStr key)])
             else Inl TypeError)
          else keyed_ids items rule_ids
      | _ \<Rightarrow> keyed_ids items rule_ids)"

definition collect_rule_ids :: "decision_rules_value \<Rightarrow> py_exception + pyval list" where
  "collect_rule_ids dr =
     (case dr of
        RulesList rs \<Rightarrow> Inr (map (\<lambda>r. case rule_id r of None \<Rightarrow> PNone | Some s \<Rightarrow> PStr s) rs)
      | RulesDict d \<Rightarrow>
          (case map_of d ''rules'' of
             Some (PList l) \<Rightarrow> rules_key_ids l []
           | _ \<Rightarrow> keyed_ids d []))"

text \<open>The truth value of an \<open>Optional[str]\<close>.\<close>

fun str_truthy :: "string option \<Rightarrow> bool" where
  "str_truthy None = False"
| "str_truthy (Some s) = (s \<noteq> [])"

definition unknown_rule_msg :: "string \<Rightarrow> string \<Rightarrow> string" where
  "unknown_rule_msg c r = ''Edge case '' @ quoted c @ '' references unknown rule: '' @ r"

definition unknown_failure_msg :: "string \<Rightarrow> string \<Rightarrow> string" where
  "unknown_failure_msg c f = ''Edge case '' @ quoted c @ '' references unknown failure: '' @ f"

definition step_dependency_msg :: "string \<Rightarrow> string \<Rightarrow> string" where
  "step_dependency_msg sid dep =
     ''Step '' @ quoted sid @ '' depends on '' @ quoted dep
     @ '' which is not available at this point in the execution flow''"

text \<open>The loop over \<open>self.edge_cases\<close> and the loop over \<open>self.steps\<close>.\<close>

fun check_edge_cases :: "pyval list \<Rightarrow> string set \<Rightarrow> EdgeCase list \<Rightarrow> py_exception + unit" where
  "check_edge_cases rule_ids failure_codes [] = Inr ()"
| "check_edge_cases rule_ids failure_codes (ec # rest) =
     (if str_truthy (covers_rule ec) \<and> PStr (the (covers_rule ec)) \<notin> set rule_ids then
        Inl (ValueError (unknown_rule_msg (case_name ec) (the (covers_rule ec))))
      else if str_truthy (covers_failure ec) \<and> the (covers_failure ec) \<notin> failure_codes then
        Inl (ValueError (unknown_failure_msg (case_name ec) (the (covers_failure ec))))
      else check_edge_cases rule_ids failure_codes rest)"

text \<open>The dependencies the loop looks at: none when \<open>based_on\<close> is \<open>None\<close> or empty.\<close>

definition deps_of :: "ExecutionStep \<Rightarrow> string list" where
  "deps_of step = (case based_on step of None \<Rightarrow> [] | Some deps \<Rightarrow> deps)"

fun check_steps :: "string set \<Rightarrow> ExecutionStep list \<Rightarrow> py_exception + unit" where
  "check_steps available_outputs [] = Inr ()"
| "check_steps available_outputs (step # rest) =
     (case find (\<lambda>dep. dep \<notin> available_outputs) (deps_of step) of
        Some dep \<Rightarrow> Inl (ValueError (step_dependency_msg (step_id step) dep))
      | None \<Rightarrow>
          check_steps
            (if str_truthy (step_output step) then insert (the (step_output step)) available_outputs
             else available_outputs) rest)"

definition validate_cross_references :: "SkillSpec \<Rightarrow> py_exception + SkillSpec" where
  "validate_cross_references self =
     (case collect_rule_ids (decision_rules self) of
        Inl e \<Rightarrow> Inl e
      | Inr rule_ids \<Rightarrow>
          (case check_edge_cases rule_ids (code ` set (failure_modes self)) (edge_cases self) of
             Inl e \<Rightarrow> Inl e
           | Inr _ \<Rightarrow>
               (case check_steps {} (steps self) of
                  Inl e \<Rightarrow> Inl e
                | Inr _ \<Rightarrow> Inr self)))"

section \<open>validator/schema.py\<close>

record SchemaError =
  path :: string
  message :: string
  suggestion :: "string option"

record SchemaValidationResult =
  valid :: bool
  schema_errors :: "SchemaError list"
  schema_warnings :: "SchemaError list"

definition add_error ::
  "SchemaValidationResult \<Rightarrow> string \<Rightarrow> string \<Rightarrow> string option \<Rightarrow> SchemaValidationResult" where
  "add_error result p m s =
     result\<lparr>schema_errors := schema_errors result @ [\<lparr>path = p, message = m, suggestion = s\<rparr>],
            valid := False\<rparr>"

definition add_warning ::
  "SchemaValidationResult \<Rightarrow> string \<Rightarrow> string \<Rightarrow> string option \<Rightarrow> SchemaValidationResult" where
  "add_warning result p m s =
     result\<lparr>schema_warnings := schema_warnings result @ [\<lparr>path = p, message = m, suggestion = s\<rparr>]\<rparr>"

definition CORE_SECTIONS :: "string list" where
  "CORE_SECTIONS = [''skill'', ''inputs'', ''preconditions'', ''non_goals'', ''decision_rules'',
     ''steps'', ''output_contract'', ''failure_modes'']"

definition COVERAGE_SECTIONS :: "string list" where
  "COVERAGE_SECTIONS = [''edge_cases'']"

definition REQUIRED_SECTIONS :: "string list" where
  "REQUIRED_SECTIONS = CORE_SECTIONS @ COVERAGE_SECTIONS"

definition ERROR_SUGGESTIONS :: "(string \<times> string) list" where
  "ERROR_SUGGESTIONS =
     [(''skill'', ''Add a '' @ quoted ''skill'' @ '' section with name, version, purpose, and owner''),
      (''inputs'', ''Add an '' @ quoted ''inputs'' @ '' section with at least one input definition''),
      (''preconditions'', ''Add a '' @ quoted ''preconditions'' @ '' section listing prerequisites''),
      (''non_goals'', ''Add a '' @ quoted ''non_goals'' @ '' section stating what the skill does NOT do''),
      (''decision_rules'', ''Add '' @ quoted ''decision_rules'' @ '' section with explicit conditions''),
      (''steps'', ''Add a '' @ quoted ''steps'' @ '' section with execution flow''),
      (''output_contract'', ''Add '' @ quoted ''output_contract'' @ '' with format and schema''),
      (''failure_modes'', ''Add '' @ quoted ''failure_modes'' @ '' section with error definitions''),
      (''edge_cases'', ''Add '' @ quoted ''edge_cases'' @ '' section covering boundary conditions'')]"

fun check_required_sections ::
  "string list \<Rightarrow> pydict \<Rightarrow> SchemaValidationResult \<Rightarrow> SchemaValidationResult" where
  "check_required_sections [] spec_data result = result"
| "check_required_sections (section # rest) spec_data result =
     check_required_sections rest spec_data
       (case map_of spec_data section of
          None \<Rightarrow>
            add_error result section (''Missing required section: '' @ section)
              (map_of ERROR_SUGGESTIONS section)
        | Some PNone \<Rightarrow>
            add_error result section (''Section '' @ quoted section @ '' is null'')
              (Some (''Provide valid content for '' @ quoted section))
        | Some (PList []) \<Rightarrow>
            add_error result section (''Section '' @ quoted section @ '' is empty'')
              (Some (''Add at least one item to '' @ quoted section))
        | Some _ \<Rightarrow> result)"

text \<open>
  The membership test \<open>spec_data["spec_version"] not in valid_versions\<close> hashes the value: a
  list or a dict raises \<open>TypeError\<close>.
\<close>

definition check_spec_version ::
  "pydict \<Rightarrow> SchemaValidationResult \<Rightarrow> py_exception + SchemaValidationResult" where
  "check_spec_version spec_data result =
     (case map_of spec_data ''spec_version'' of
        None \<Rightarrow>
          Inr (add_error result ''spec_version'' ''Missing required field: spec_version''
                 (Some (''Add '' @ quoted (''spec_version: \"skill-spec/1.1\"''))))
      | Some v \<Rightarrow>
          if \<not> hashable v then Inl TypeError
          else if v \<notin> {PStr ''skill-spec/1.0'', PStr ''skill-spec/1.1''} then
            Inr (add_warning result ''spec_version'' (''Unknown spec version: '' @ py_str v)
                   (Some (''Use '' @ quoted ''skill-spec/1.0'' @ '' or '' @ quoted ''skill-spec/1.1'')))
          else Inr result)"

text \<open>
  What pydantic reports: each error has a location (keys and indices), a message and a type.
  The field validation of pydantic is a parameter \<open>fv\<close>: it gives the errors it found, or the
  typed object. Then the model validator \<open>validate_cross_references\<close> runs; pydantic turns a
  \<open>ValueError\<close> raised there into one error at the empty location, whose message starts with
  \<open>Value error, \<close>, and lets any other exception through.
\<close>

datatype loc_item = LocStr string | LocInt nat

fun str_loc :: "loc_item \<Rightarrow> string" where
  "str_loc (LocStr s) = s"
| "str_loc (LocInt n) = str_of_nat n"

record PydanticError =
  loc :: "loc_item list"
  msg :: string
  error_type :: string

fun join_dot :: "string list \<Rightarrow> string" where
  "join_dot [] = []"
| "join_dot [s] = s"
| "join_dot (s # ss) = s @ ''.'' @ join_dot ss"

definition get_suggestion_for_error :: "PydanticError \<Rightarrow> string option" where
  "get_suggestion_for_error error =
     (if error_type error = ''missing'' then
        Some (''Add the required field ''
              @ quoted (if loc error \<noteq> [] then str_loc (last (loc error)) else ''unknown''))
      else if error_type error = ''string_pattern_mismatch'' then
        Some ''Check the format matches the required pattern''
      else if error_type error = ''string_too_short'' then Some ''Provide a longer value''
      else if error_type error = ''list_type'' then Some ''This field should be a list''
      else None)"

type_synonym field_validation = "pydict \<Rightarrow> PydanticError list + SkillSpec"

definition model_validate :: "field_validation \<Rightarrow> pydict \<Rightarrow> py_exception + PydanticError list" where
  "model_validate fv spec_data =
     (case fv spec_data of
        Inl errs \<Rightarrow> Inr errs
      | Inr self \<Rightarrow>
          (case validate_cross_references self of
             Inl (ValueError m) \<Rightarrow>
               Inr [\<lparr>loc = [], msg = ''Value error, '' @ m, error_type = ''value_error''\<rparr>]
           | Inl e \<Rightarrow> Inl e
           | Inr _ \<Rightarrow> Inr []))"

definition validate_with_pydantic ::
  "field_validation \<Rightarrow> pydict \<Rightarrow> SchemaValidationResult \<Rightarrow> py_exception + SchemaValidationResult" where
  "validate_with_pydantic fv spec_data result =
     (case model_validate fv spec_data of
        Inl e \<Rightarrow> Inl e
      | Inr errs \<Rightarrow>
          Inr (foldl (\<lambda>result error.
                 add_error result (join_dot (map str_loc (loc error))) (msg error)
                   (get_suggestion_for_error error)) result errs))"

text \<open>
  \<open>SchemaValidator.validate\<close> of a validator built without \<open>schema_path\<close>, so that the
  JSON Schema step is skipped.
\<close>

definition validate :: "field_validation \<Rightarrow> pydict \<Rightarrow> py_exception + SchemaValidationResult" where
  "validate fv spec_data =
     (case check_spec_version spec_data
             (check_required_sections REQUIRED_SECTIONS spec_data
                \<lparr>valid = True, schema_errors = [], schema_warnings = []\<rparr>) of
        Inl e \<Rightarrow> Inl e
      | Inr result \<Rightarrow>
          if valid result then validate_with_pydantic fv spec_data result else Inr result)"

text \<open>A field validation that succeeds with the given typed object.\<close>

definition fields_accept :: "SkillSpec \<Rightarrow> field_validation" where
  "fields_accept self spec_data = Inr self"

text \<open>Notions used to state the properties of the validators.\<close>

definition section_filled :: "pydict \<Rightarrow> string \<Rightarrow> bool" where
  "section_filled spec_data section =
     (case map_of spec_data section of
        None \<Rightarrow> False
      | Some v \<Rightarrow> v \<noteq> PNone \<and> v \<noteq> PList [])"

definition produced_before :: "ExecutionStep list \<Rightarrow> nat \<Rightarrow> string set" where
  "produced_before ss i =
     (\<lambda>s. the (step_output s)) ` set (filter (\<lambda>s. str_truthy (step_output s)) (take i ss))"

definition empty_section_error :: "string \<Rightarrow> SchemaError" where
  "empty_section_error section =
     \<lparr>path = section, message = ''Section '' @ quoted section @ '' is empty'',
      suggestion = Some (''Add at least one item to '' @ quoted section)\<rparr>"

definition unknown_version_warning :: "string \<Rightarrow> SchemaError" where
  "unknown_version_warning v =
     \<lparr>path = ''spec_version'', message = ''Unknown spec version: '' @ v,
      suggestion = Some (''Use '' @ quoted ''skill-spec/1.0'' @ '' or '' @ quoted ''skill-spec/1.1'')\<rparr>"

definition well_ordered_steps :: "ExecutionStep list \<Rightarrow> bool" where
  "well_ordered_steps ss =
     (\<forall>i < length ss. \<forall>d \<in> set (deps_of (ss ! i)). d \<in> produced_before ss i)"

definition edge_refs_resolve :: "pyval list \<Rightarrow> SkillSpec \<Rightarrow> bool" where
  "edge_refs_resolve ids self =
     (\<forall>ec \<in> set (edge_cases self).
        (str_truthy (covers_rule ec) \<longrightarrow> PStr (the (covers_rule ec)) \<in> set ids)
        \<and> (str_truthy (covers_failure ec) \<longrightarrow>
             the (covers_failure ec) \<in> code ` set (failure_modes self)))"

definition step_dependency_error :: "string \<Rightarrow> string \<Rightarrow> SchemaError" where
  "step_dependency_error sid dep =
     \<lparr>path = [], message = ''Value error, '' @ step_dependency_msg sid dep, suggestion = None\<rparr>"

section \<open>validator/quality.py\<close>














lemma strip_prefix_Some: "strip_prefix p s = Some r \<Longrightarrow> s = p @ r"
  by (induction p s rule: strip_prefix.induct) (auto split: if_splits)






text \<open>
  The fields \<open>path\<close>, \<open>pattern\<close>, \<open>category\<close> and \<open>severity\<close> of \<open>PatternViolation\<close> carry the
  prefix \<open>violation_\<close>, and \<open>valid\<close> of the result is \<open>quality_valid\<close>.
\<close>

record PatternViolation =
  violation_path :: string
  violation_pattern :: string
  matched_text :: string
  violation_category :: string
  violation_severity :: string
  fix_suggestion :: string
  line_number :: "nat option"

record QualityValidationResult =
  quality_valid :: bool
  violations :: "PatternViolation list"
  category_counts :: "(string \<times> nat) list"
  total_errors :: nat
  total_warnings :: nat
  total_info :: nat

fun count_up :: "(string \<times> nat) list \<Rightarrow> string \<Rightarrow> (string \<times> nat) list" where
  "count_up [] k = [(k, 1)]"
| "count_up ((k', n) # rest) k = (if k' = k then (k', n + 1) # rest else (k', n) # count_up rest k)"

definition add_violation ::
  "QualityValidationResult \<Rightarrow> PatternViolation \<Rightarrow> QualityValidationResult" where
  "add_violation self violation =
     (let self = self\<lparr>violations := violations self @ [violation],
                      category_counts := count_up (category_counts self)
                                           (violation_category violation)\<rparr>
      in if violation_severity violation = ''error'' then
           self\<lparr>total_errors := total_errors self + 1, quality_valid := False\<rparr>
         else if violation_severity violation = ''warning'' then
           self\<lparr>total_warnings := total_warnings self + 1\<rparr>
         else if violation_severity violation = ''info'' then
           self\<lparr>total_info := total_info self + 1\<rparr>
         else self)"





















section \<open>Example specifications\<close>

text \<open>A small specification as a dictionary, and the typed object pydantic builds from it.\<close>

definition example_spec ::
  "pyval option \<Rightarrow> pyval \<Rightarrow> pyval \<Rightarrow> pyval \<Rightarrow> string option \<Rightarrow> pydict" where
  "example_spec ver inputs rules step_list covered_rule =
     (case ver of None \<Rightarrow> [] | Some v \<Rightarrow> [(''spec_version'', v)])
     @ [(''skill'', PDict [(''name'', PStr ''demo-skill''), (''version'', PStr ''1.0.0''),
                           (''purpose'', PStr ''Checks one text input''), (''owner'', PStr ''team'')]),
        (''inputs'', inputs),
        (''preconditions'', PList [PStr ''Input is present'']),
        (''non_goals'', PList [PStr ''No network access'']),
        (''decision_rules'', rules),
        (''steps'', step_list),
        (''output_contract'', PDict [(''format'', PStr ''json''),
                                     (''schema'', PDict [(''type'', PStr ''object'')])]),
        (''failure_modes'', PList [PDict [(''code'', PStr ''EMPTY_INPUT''), (''retryable'', PBool False)]]),
        (''edge_cases'', PList [PDict ([(''case'', PStr ''empty text''),
                                        (''expected'', PDict [(''status'', PStr ''error'')]),
                                        (''covers_failure'', PStr ''EMPTY_INPUT'')]
                                       @ (case covered_rule of None \<Rightarrow> []
                                          | Some r \<Rightarrow> [(''covers_rule'', PStr r)]))])]"

definition example_inputs :: pyval where
  "example_inputs = PList [PDict [(''name'', PStr ''text''), (''type'', PStr ''string''),
                                  (''required'', PBool True)]]"

definition example_rules :: pyval where
  "example_rules = PList [PDict [(''id'', PStr ''rule_empty''), (''when'', PBool True),
                                 (''then'', PDict [(''status'', PStr ''error'')])]]"

definition example_steps :: pyval where
  "example_steps = PList [PDict [(''id'', PStr ''load''), (''action'', PStr ''Load the text''),
                                 (''output'', PStr ''text_value'')],
                          PDict [(''id'', PStr ''check''), (''action'', PStr ''Check the text''),
                                 (''based_on'', PList [PStr ''text_value''])]]"

definition example_typed ::
  "string \<Rightarrow> decision_rules_value \<Rightarrow> ExecutionStep list \<Rightarrow> string option \<Rightarrow> SkillSpec" where
  "example_typed ver rules step_list covered_rule =
     \<lparr>spec_version = ver, preconditions = [''Input is present''],
      non_goals = [''No network access''], decision_rules = rules, steps = step_list,
      failure_modes = [\<lparr>code = ''EMPTY_INPUT'', retryable = False, description = None,
                        recovery_hint = None\<rparr>],
      edge_cases = [\<lparr>case_name = ''empty text'', expected = [(''status'', PStr ''error'')],
                     input_example = PNone, covers_rule = covered_rule,
                     covers_failure = Some ''EMPTY_INPUT''\<rparr>]\<rparr>"

definition load_step :: ExecutionStep where
  "load_step = \<lparr>step_id = ''load'', action = ''Load the text'', step_output = Some ''text_value'',
                 based_on = None, condition = None\<rparr>"

definition check_step :: ExecutionStep where
  "check_step = \<lparr>step_id = ''check'', action = ''Check the text'', step_output = None,
                  based_on = Some [''text_value''], condition = None\<rparr>"

definition example_rule :: DecisionRule where
  "example_rule = \<lparr>rule_id = Some ''rule_empty'', priority = 0, is_default = False,
                    when_cond = PBool True, then_action = [(''status'', PStr ''error'')]\<rparr>"

text \<open>The \<open>steps\<close> section of the dictionary for a list of typed steps.\<close>

definition steps_dict :: "ExecutionStep list \<Rightarrow> pyval" where
  "steps_dict ss =
     PList (map (\<lambda>s. PDict ([(''id'', PStr (step_id s)), (''action'', PStr (action s))]
                   @ (case step_output s of None \<Rightarrow> [] | Some out \<Rightarrow> [(''output'', PStr out)])
                   @ (case based_on s of None \<Rightarrow> []
                      | Some deps \<Rightarrow> [(''based_on'', PList (map PStr deps))]))) ss)"

text \<open>Two steps where the first has the empty string as its output name.\<close>

definition silent_step :: ExecutionStep where
  "silent_step = \<lparr>step_id = ''load'', action = ''Load the text'', step_output = Some [],
                 based_on = None, condition = None\<rparr>"

definition silent_user :: ExecutionStep where
  "silent_user = \<lparr>step_id = ''check'', action = ''Check the text'', step_output = None,
                  based_on = Some [[]], condition = None\<rparr>"

text \<open>Three steps: the last depends on the outputs of the two before it.\<close>

definition summary_step :: ExecutionStep where
  "summary_step = \<lparr>step_id = ''summarise'', action = ''Summarise the text'',
                    step_output = Some ''summary'', based_on = Some [''text_value''],
                    condition = None\<rparr>"

definition report_step :: ExecutionStep where
  "report_step = \<lparr>step_id = ''report'', action = ''Report the result'', step_output = None,
                   based_on = Some [''text_value'', ''summary''], condition = None\<rparr>"


section \<open>Lines, markers and the front matter pattern\<close>

lemma split_nl_nonempty: "split_nl s \<noteq> []"
  by (induction s) (auto split: list.splits)

lemma split_nl_append_NL: "split_nl (a @ NL # b) = split_nl a @ split_nl b"
  by (induction a) (auto split: list.splits simp: split_nl_nonempty)

lemma split_join_concat: "xs \<noteq> [] \<Longrightarrow> split_nl (join_nl xs) = concat (map split_nl xs)"
  by (induction xs rule: join_nl.induct) (auto simp: split_nl_append_NL)

lemma join_split_id: "join_nl (split_nl s) = s"
proof (induction s)
  case Nil
  then show ?case by simp
next
  case (Cons c cs)
  then show ?case
    by (cases "split_nl cs"; cases "tl (split_nl cs)") (auto simp: split_nl_nonempty)
qed

lemma hd_split_prefix: "prefix (hd (split_nl s)) s"
  by (induction s) (auto split: list.splits)

lemma line_sublist: "l \<in> set (split_nl s) \<Longrightarrow> sublist l s"
proof (induction s arbitrary: l)
  case Nil
  then show ?case by simp
next
  case (Cons c cs)
  show ?case
  proof (cases "c = NL")
    case True
    with Cons show ?thesis by (auto simp: sublist_Cons_right)
  next
    case False
    obtain l0 ls where sp: "split_nl cs = l0 # ls"
      using split_nl_nonempty by (cases "split_nl cs") auto
    from Cons.prems False sp have "l = c # l0 \<or> l \<in> set ls" by auto
    then show ?thesis
    proof
      assume l: "l = c # l0"
      have "prefix l0 cs" using sp hd_split_prefix [of cs] by simp
      then show ?thesis using l by (simp add: sublist_Cons_right)
    next
      assume "l \<in> set ls"
      then show ?thesis using Cons.IH sp by (auto simp: sublist_Cons_right)
    qed
  qed
qed

lemma sublist_trans: "sublist a b \<Longrightarrow> sublist b c \<Longrightarrow> sublist a c"
  by (rule sublist_order.order.trans)

lemma strip_sublist: "sublist (strip s) s"
proof -
  have "prefix (rev (dropWhile is_space (rev (dropWhile is_space s)))) (dropWhile is_space s)"
    by (metis suffix_dropWhile suffix_to_prefix rev_rev_ident)
  then show ?thesis
    unfolding strip_def
    by (meson prefix_imp_sublist sublist_dropWhile sublist_trans)
qed

lemma prefix_first_line: "prefix m s \<Longrightarrow> NL \<notin> set m \<Longrightarrow> prefix m (hd (split_nl s))"
  by (induction s arbitrary: m) (auto simp: prefix_Cons split_nl_nonempty split: list.splits)

lemma sublist_some_line:
  "sublist m s \<Longrightarrow> NL \<notin> set m \<Longrightarrow> \<exists>l \<in> set (split_nl s). sublist m l"
proof (induction s)
  case Nil
  then show ?case by simp
next
  case (Cons c cs)
  from Cons.prems(1) have "prefix m (c # cs) \<or> sublist m cs"
    by (simp add: sublist_Cons_right)
  then show ?case
  proof
    assume "prefix m (c # cs)"
    then have "prefix m (hd (split_nl (c # cs)))"
      using Cons.prems(2) by (rule prefix_first_line)
    moreover have "hd (split_nl (c # cs)) \<in> set (split_nl (c # cs))"
      using split_nl_nonempty by (intro hd_in_set)
    ultimately show ?thesis by (meson prefix_imp_sublist)
  next
    assume "sublist m cs"
    then obtain l where l: "l \<in> set (split_nl cs)" "sublist m l"
      using Cons by blast
    obtain l0 ls where sp: "split_nl cs = l0 # ls"
      using split_nl_nonempty by (cases "split_nl cs") auto
    show ?thesis
    proof (cases "c = NL")
      case True
      then show ?thesis using l by auto
    next
      case False
      then show ?thesis using l sp by (auto simp: sublist_Cons_right)
    qed
  qed
qed

lemma ws_then_nl_split: "r \<in> set (ws_then_nl s) \<Longrightarrow> \<exists>p. s = p @ NL # r"
proof (induction s)
  case Nil
  then show ?case by simp
next
  case (Cons c cs)
  then show ?case
    by (auto split: if_splits intro: exI [of _ "[]"])
qed

lemma lazy_close_split: "r \<in> set (lazy_close s) \<Longrightarrow> \<exists>p. s = p @ NL # r"
proof (induction s)
  case Nil
  then show ?case by simp
next
  case (Cons c cs)
  from Cons.prems consider
    (a) r0 where "strip_prefix (NL # ''---'') (c # cs) = Some r0" "r \<in> set (ws_then_nl r0)"
    | (b) "r \<in> set (lazy_close cs)"
    by (cases "strip_prefix (NL # ''---'') (c # cs)") (auto simp del: strip_prefix.simps)
  then show ?case
  proof cases
    case a
    from a(1) have "c # cs = (NL # ''---'') @ r0" by (rule strip_prefix_Some)
    moreover from a(2) obtain p where "r0 = p @ NL # r" using ws_then_nl_split by blast
    ultimately have "c # cs = ((NL # ''---'') @ p) @ NL # r" by simp
    then show ?thesis by blast
  next
    case b
    then obtain p where "cs = p @ NL # r" using Cons.IH by blast
    then have "c # cs = (c # p) @ NL # r" by simp
    then show ?thesis by blast
  qed
qed

lemma frontmatter_match_split:
  assumes "frontmatter_match s = Some (fm, rest)"
  shows "s = fm @ rest \<and> (\<exists>p. fm = p @ [NL])"
proof -
  from assms obtain r0 where r0: "strip_prefix ''---'' s = Some r0"
    by (auto simp: frontmatter_match_def split: option.splits)
  from assms r0 obtain rs where rs: "concat (map lazy_close (ws_then_nl r0)) = rest # rs"
    and fm: "fm = take (length s - length rest) s"
    by (auto simp: frontmatter_match_def split: list.splits)
  from rs have "rest \<in> set (concat (map lazy_close (ws_then_nl r0)))" by simp
  then obtain r1 where r1: "r1 \<in> set (ws_then_nl r0)" "rest \<in> set (lazy_close r1)" by auto
  from r1(2) obtain p where p: "r1 = p @ NL # rest" using lazy_close_split by blast
  from r1(1) obtain q where q: "r0 = q @ NL # r1" using ws_then_nl_split by blast
  from r0 have "s = ''---'' @ r0" by (rule strip_prefix_Some)
  define x where "x = ''---'' @ q @ NL # p"
  from p q \<open>s = ''---'' @ r0\<close> have s: "s = (x @ [NL]) @ rest" by (simp add: x_def)
  then have "length s - length rest = length (x @ [NL])" by simp
  then have "fm = x @ [NL]" unfolding fm using s by simp
  with s show ?thesis by auto
qed

lemma manual_contents_append [simp]:
  "manual_contents (xs @ ys) = manual_contents xs @ manual_contents ys"
  by (simp add: manual_contents_def)

lemma manual_contents_Nil [simp]: "manual_contents [] = []"
  by (simp add: manual_contents_def)

lemma manual_contents_single [simp]:
  "manual_contents [mk_block ty c sec] = (if ty = MANUAL then [c] else [])"
  by (simp add: manual_contents_def mk_block_def)

lemma markers_no_NL: "m \<in> set markers \<Longrightarrow> NL \<notin> set m"
  by (auto simp: markers_def NL_def GENERATED_START_def GENERATED_END_def MANUAL_START_def MANUAL_END_def)

lemma markers_nonempty: "m \<in> set markers \<Longrightarrow> m \<noteq> []"
  by (auto simp: markers_def GENERATED_START_def GENERATED_END_def MANUAL_START_def MANUAL_END_def)

lemma marker_lines:
  "split_nl GENERATED_START = [GENERATED_START]" "split_nl MANUAL_START = [MANUAL_START]"
  "split_nl GENERATED_END = [GENERATED_END]" "split_nl MANUAL_END = [MANUAL_END]"
  by (simp_all add: NL_def GENERATED_START_def GENERATED_END_def MANUAL_START_def MANUAL_END_def)

lemma marker_distinct:
  "\<not> sublist MANUAL_START GENERATED_START" "\<not> sublist MANUAL_START GENERATED_END"
  "\<not> sublist GENERATED_START MANUAL_START" "\<not> sublist GENERATED_START MANUAL_END"
  "\<not> sublist MANUAL_START MANUAL_END"
  by code_simp+

lemma step_no_manual_start:
  assumes "\<not> sublist MANUAL_START line" "ty \<noteq> MANUAL"
    and "parse_step (bs, cur, ty, sec) line = (bs', cur', ty', sec')"
  shows "ty' \<noteq> MANUAL \<and> manual_contents bs' = manual_contents bs"
  using assms by (auto split: if_splits)

lemma fold_no_manual_start:
  assumes "\<forall>l \<in> set ls. \<not> sublist MANUAL_START l" "ty \<noteq> MANUAL"
    and "foldl parse_step (bs, cur, ty, sec) ls = (bs', cur', ty', sec')"
  shows "ty' \<noteq> MANUAL \<and> manual_contents bs' = manual_contents bs"
  using assms
proof (induction ls arbitrary: bs cur ty sec)
  case Nil
  then show ?case by simp
next
  case (Cons l ls)
  obtain b1 c1 t1 s1 where st: "parse_step (bs, cur, ty, sec) l = (b1, c1, t1, s1)"
    by (cases "parse_step (bs, cur, ty, sec) l") auto
  from Cons.prems have "\<not> sublist MANUAL_START l" by simp
  from step_no_manual_start [OF this Cons.prems(2) st]
  have t1: "t1 \<noteq> MANUAL" and m1: "manual_contents b1 = manual_contents bs" by auto
  from Cons.prems(3) st have "foldl parse_step (b1, c1, t1, s1) ls = (bs', cur', ty', sec')"
    by simp
  from Cons.IH [OF _ t1 this] Cons.prems(1) m1 show ?case by simp
qed

lemma marker_free_step:
  "marker_free line \<Longrightarrow> \<exists>sec'. parse_step (bs, cur, ty, sec) line = (bs, cur @ [line], ty, sec')"
  by (simp add: marker_free_def markers_def)

lemma fold_marker_free:
  "\<forall>l \<in> set ls. marker_free l \<Longrightarrow>
   \<exists>sec'. foldl parse_step (bs, cur, ty, sec) ls = (bs, cur @ ls, ty, sec')"
proof (induction ls arbitrary: cur sec)
  case Nil
  then show ?case by simp
next
  case (Cons l ls)
  then obtain s1 where "parse_step (bs, cur, ty, sec) l = (bs, cur @ [l], ty, s1)"
    using marker_free_step [of l bs cur ty sec] by auto
  moreover obtain s2 where "foldl parse_step (bs, cur @ [l], ty, s1) ls = (bs, (cur @ [l]) @ ls, ty, s2)"
    using Cons.IH [of "cur @ [l]" s1] Cons.prems by auto
  ultimately show ?case by simp
qed

lemma marker_free_Nil: "marker_free []"
  by (auto simp: marker_free_def dest: markers_nonempty)

lemma marker_free_sublist: "marker_free s \<Longrightarrow> sublist t s \<Longrightarrow> marker_free t"
  unfolding marker_free_def using sublist_trans by blast

lemma marker_free_lines: "marker_free s \<Longrightarrow> l \<in> set (split_nl s) \<Longrightarrow> marker_free l"
  using marker_free_sublist line_sublist by blast

lemma marker_free_join:
  assumes "\<forall>l \<in> set ls. marker_free l"
  shows "marker_free (join_nl ls)"
proof (cases "ls = []")
  case True
  then show ?thesis by (simp add: marker_free_Nil)
next
  case False
  show ?thesis
    unfolding marker_free_def
  proof (intro ballI notI)
    fix m assume m: "m \<in> set markers" and sub: "sublist m (join_nl ls)"
    from sublist_some_line [OF sub markers_no_NL [OF m]]
    obtain l where "l \<in> set (split_nl (join_nl ls))" "sublist m l" by blast
    then obtain c where c: "c \<in> set ls" "l \<in> set (split_nl c)"
      using False by (auto simp: split_join_concat)
    then have "sublist m c" using \<open>sublist m l\<close> line_sublist sublist_trans by blast
    with assms c(1) m show False by (auto simp: marker_free_def)
  qed
qed

lemma fold_manual_lines:
  assumes "marker_free c" "ty \<noteq> MANUAL"
  shows "\<exists>bs' sec'. foldl parse_step (bs, cur, ty, sec)
            (concat (map split_nl [[], MANUAL_START, c, MANUAL_END]))
          = (bs', [], UNMARKED, sec') \<and> manual_contents bs' = manual_contents bs @ [c]"
proof -
  have e: "marker_free []" by (rule marker_free_Nil)
  obtain s1 where 1: "parse_step (bs, cur, ty, sec) [] = (bs, cur @ [[]], ty, s1)"
    using marker_free_step [OF e] by blast
  define b1 where "b1 = bs @ [mk_block ty (join_nl (cur @ [[]])) s1]"
  have 2: "parse_step (bs, cur @ [[]], ty, s1) MANUAL_START = (b1, [], MANUAL, s1)"
    by (simp add: marker_distinct b1_def)
  have "\<forall>l \<in> set (split_nl c). marker_free l"
    using assms(1) marker_free_lines by blast
  from fold_marker_free [OF this, of b1 "[]" MANUAL s1]
  obtain s2 where 3: "foldl parse_step (b1, [], MANUAL, s1) (split_nl c) = (b1, split_nl c, MANUAL, s2)"
    by auto
  have 4: "parse_step (b1, split_nl c, MANUAL, s2) MANUAL_END
      = (b1 @ [mk_block MANUAL c s2], [], UNMARKED, s2)"
    by (simp add: marker_distinct join_split_id)
  have "foldl parse_step (bs, cur, ty, sec) (concat (map split_nl [[], MANUAL_START, c, MANUAL_END]))
      = (b1 @ [mk_block MANUAL c s2], [], UNMARKED, s2)"
    using 1 2 3 4 by (simp add: marker_lines del: parse_step.simps)
  moreover have "manual_contents (b1 @ [mk_block MANUAL c s2]) = manual_contents bs @ [c]"
    using assms(2) by (simp add: b1_def manual_contents_def mk_block_def)
  ultimately show ?thesis by blast
qed

lemma fold_manual_blocks:
  assumes "\<forall>b \<in> set ms. marker_free (strip (content b))" "ty \<noteq> MANUAL"
    and "foldl parse_step (bs, cur, ty, sec) (concat (map split_nl (concat (map manual_lines ms))))
         = (bs', cur', ty', sec')"
  shows "ty' \<noteq> MANUAL \<and> manual_contents bs' = manual_contents bs @ map (\<lambda>b. strip (content b)) ms"
  using assms
proof (induction ms arbitrary: bs cur ty sec)
  case Nil
  then show ?case by simp
next
  case (Cons b ms)
  from Cons.prems(1) have mf: "marker_free (strip (content b))" by simp
  from fold_manual_lines [OF mf Cons.prems(2), of bs cur sec]
  obtain b1 s1 where 1: "foldl parse_step (bs, cur, ty, sec)
            (concat (map split_nl (manual_lines b))) = (b1, [], UNMARKED, s1)"
    and m1: "manual_contents b1 = manual_contents bs @ [strip (content b)]"
    unfolding manual_lines_def by blast
  from Cons.prems(3) 1
  have "foldl parse_step (b1, [], UNMARKED, s1) (concat (map split_nl (concat (map manual_lines ms))))
         = (bs', cur', ty', sec')"
    by simp
  from Cons.IH [OF _ _ this] Cons.prems(1) m1 show ?case by simp
qed

lemma manual_contents_finish:
  "ty \<noteq> MANUAL \<Longrightarrow> manual_contents (parse_finish (bs, cur, ty, sec)) = manual_contents bs"
  by simp

lemma content_mk_block [simp]: "content (mk_block ty c sec) = c"
  by (simp add: mk_block_def)

lemma blocks_marker_free_step:
  assumes "blocks_marker_free st"
  shows "blocks_marker_free (parse_step st line)"
proof -
  obtain bs cur ty sec where st: "st = (bs, cur, ty, sec)" by (cases st) auto
  from assms st have "marker_free (join_nl cur)"
    by (auto simp: blocks_marker_free_def intro: marker_free_join)
  moreover have "marker_free line"
    if "\<not> sublist GENERATED_START line" "\<not> sublist MANUAL_START line"
       "\<not> sublist GENERATED_END line" "\<not> sublist MANUAL_END line"
    using that by (simp add: marker_free_def markers_def)
  ultimately show ?thesis
    using assms st by (auto simp: blocks_marker_free_def)
qed

lemma blocks_marker_free_fold:
  "blocks_marker_free st \<Longrightarrow> blocks_marker_free (foldl parse_step st ls)"
  by (induction ls arbitrary: st) (simp_all add: blocks_marker_free_step)

lemma blocks_marker_free_finish:
  assumes "blocks_marker_free st" "b \<in> set (parse_finish st)"
  shows "marker_free (content b)"
proof -
  obtain bs cur ty sec where st: "st = (bs, cur, ty, sec)" by (cases st) auto
  from assms st have "marker_free (join_nl cur)"
    by (auto simp: blocks_marker_free_def intro: marker_free_join)
  then show ?thesis
    using assms st by (auto simp: blocks_marker_free_def split: if_splits)
qed

lemma parsed_blocks_marker_free:
  assumes "has_markers (parse_skill_md D)" "b \<in> set (blocks (parse_skill_md D))"
  shows "marker_free (content b)"
proof -
  have "blocks_marker_free ([], [], UNMARKED, None)"
    by (simp add: blocks_marker_free_def)
  then have "blocks_marker_free (foldl parse_step ([], [], UNMARKED, None) (split_nl D))"
    by (rule blocks_marker_free_fold)
  then show ?thesis
    using assms blocks_marker_free_finish
    by (auto simp: parse_skill_md_def split: if_splits)
qed

lemma sublist_join: "x \<in> set xs \<Longrightarrow> sublist x (join_nl xs)"
proof (induction xs rule: join_nl.induct)
  case 1
  then show ?case by simp
next
  case (2 l)
  then show ?case by simp
next
  case (3 l v va)
  then show ?case
    by (auto simp: sublist_append sublist_Cons_right)
qed

lemma manual_contents_get:
  "map content (get_manual_blocks doc) = manual_contents (blocks doc)"
  by (simp add: get_manual_blocks_def manual_contents_def)

lemma lines_without:
  assumes "\<not> sublist m G" "sublist t G" "l \<in> set (split_nl t)"
  shows "\<not> sublist m l"
  using assms line_sublist sublist_trans by blast

lemma no_manual_start_no_manual_block:
  assumes "\<forall>l \<in> set (split_nl s). \<not> sublist MANUAL_START l"
  shows "manual_contents (blocks (parse_skill_md s)) = []"
proof (cases "sublist GENERATED_START s \<or> sublist MANUAL_START s")
  case False
  then show ?thesis by (simp add: parse_skill_md_def)
next
  case True
  obtain bs cur ty sec where
    f: "foldl parse_step ([], [], UNMARKED, None) (split_nl s) = (bs, cur, ty, sec)"
    by (cases "foldl parse_step ([], [], UNMARKED, None) (split_nl s)") auto
  from fold_no_manual_start [OF assms _ f] have "ty \<noteq> MANUAL" "manual_contents bs = []"
    by simp_all
  then have "manual_contents (parse_finish (bs, cur, ty, sec)) = []"
    by (simp add: manual_contents_finish del: parse_finish.simps)
  with True f show ?thesis by (simp add: parse_skill_md_def)
qed

lemma wrap_generated_block_lines:
  assumes "\<not> sublist MANUAL_START G" "l \<in> set (split_nl (wrap_generated_block G))"
  shows "\<not> sublist MANUAL_START l"
proof (cases "frontmatter_match G")
  case None
  then have "split_nl (wrap_generated_block G) = [GENERATED_START] @ split_nl G @ [GENERATED_END]"
    by (simp add: wrap_generated_block_def split_nl_append_NL marker_lines)
  with assms show ?thesis
    using lines_without [of MANUAL_START G G l] by (auto simp: marker_distinct)
next
  case (Some a)
  then obtain fm rest where m: "frontmatter_match G = Some (fm, rest)" by (cases a) auto
  from frontmatter_match_split [OF m] obtain p where G: "G = fm @ rest" and fm: "fm = p @ [NL]"
    by blast
  have "wrap_generated_block G = p @ NL # (GENERATED_START @ NL # (rest @ NL # GENERATED_END))"
    using m fm by (simp add: wrap_generated_block_def)
  then have "split_nl (wrap_generated_block G)
      = split_nl p @ [GENERATED_START] @ split_nl rest @ [GENERATED_END]"
    by (simp only: split_nl_append_NL marker_lines)
  moreover have "sublist fm G" "sublist rest G" "sublist p fm"
    by (subst G, simp, subst G, simp, subst fm, simp)
  then have "sublist p G" "sublist rest G"
    using sublist_trans by blast+
  ultimately show ?thesis
    using assms lines_without [of MANUAL_START G p l] lines_without [of MANUAL_START G rest l]
    by (auto simp: marker_distinct)
qed

lemma generated_lines_props:
  assumes "\<not> sublist MANUAL_START G"
  shows "GENERATED_START \<in> set (generated_lines G)"
    and "\<forall>l \<in> set (concat (map split_nl (generated_lines G))). \<not> sublist MANUAL_START l"
proof -
  show "GENERATED_START \<in> set (generated_lines G)"
    by (auto simp: generated_lines_def split: option.splits)
  show "\<forall>l \<in> set (concat (map split_nl (generated_lines G))). \<not> sublist MANUAL_START l"
  proof (cases "frontmatter_match G")
    case None
    have "sublist (strip G) G" by (rule strip_sublist)
    then show ?thesis
      using None assms lines_without [of MANUAL_START G "strip G"]
      by (auto simp: generated_lines_def marker_lines marker_distinct)
  next
    case (Some a)
    then obtain fm rest where m: "frontmatter_match G = Some (fm, rest)" by (cases a) auto
    from frontmatter_match_split [OF m] have G: "G = fm @ rest" by blast
    have "sublist fm G" "sublist rest G" by (subst G, simp)+
    then have "sublist (strip fm) G" "sublist (strip rest) G"
      using strip_sublist sublist_trans by blast+
    then have a: "\<forall>l \<in> set (split_nl (strip fm)). \<not> sublist MANUAL_START l"
      and b: "\<forall>l \<in> set (split_nl (strip rest)). \<not> sublist MANUAL_START l"
      using assms lines_without by blast+
    have c: "\<not> sublist MANUAL_START []" by (simp add: MANUAL_START_def)
    have "concat (map split_nl (generated_lines G))
        = split_nl (strip fm) @ [[], GENERATED_START] @ split_nl (strip rest) @ [GENERATED_END]"
      using m by (simp add: generated_lines_def marker_lines)
    then show ?thesis
      using a b c by (simp add: marker_distinct ball_Un)
  qed
qed

section \<open>Reconciliation\<close>

text \<open>
  C2. With \<open>force = True\<close> the previous document is ignored: the merged content is the
  fresh content itself (no marker is added, so it is the same up to wrapping markers),
  \<open>success\<close> is true and the one warning says that all existing content was replaced.
\<close>

theorem force_returns_new_content:
  "merge_with_preservation D G True =
     \<lparr>success = True, merged_content = G, manual_blocks_preserved = 0,
      generated_blocks_updated = 0,
      warnings = [''Force mode: all existing content replaced''], errors = []\<rparr>"
  by (simp add: merge_with_preservation_def)

text \<open>The three branches of \<open>merge_with_preservation\<close>.\<close>

lemma has_markers_iff:
  "has_markers (parse_skill_md D) = (sublist GENERATED_START D \<or> sublist MANUAL_START D)"
  by (simp add: parse_skill_md_def)

lemma merge_force:
  "merge_with_preservation D G True =
     \<lparr>success = True, merged_content = G, manual_blocks_preserved = 0,
      generated_blocks_updated = 0,
      warnings = [''Force mode: all existing content replaced''], errors = []\<rparr>"
  by (simp add: merge_with_preservation_def)

lemma merge_no_markers:
  "\<not> has_markers (parse_skill_md D) \<Longrightarrow>
   merge_with_preservation D G False =
     \<lparr>success = True, merged_content = wrap_generated_block G, manual_blocks_preserved = 0,
      generated_blocks_updated = 0,
      warnings = [''No markers found in existing content - wrapped new content in generated markers''],
      errors = []\<rparr>"
  by (simp add: merge_with_preservation_def Let_def)

lemma merge_markers:
  "has_markers (parse_skill_md D) \<Longrightarrow>
   merge_with_preservation D G False =
     \<lparr>success = True,
      merged_content = join_nl (generated_lines G
         @ concat (map manual_lines (get_manual_blocks (parse_skill_md D)))),
      manual_blocks_preserved = length (get_manual_blocks (parse_skill_md D)),
      generated_blocks_updated = 1, warnings = [], errors = []\<rparr>"
  by (simp add: merge_with_preservation_def Let_def)

lemma merge_success: "success (merge_with_preservation D G force)"
  by (cases force; cases "has_markers (parse_skill_md D)")
     (simp_all add: merge_force merge_no_markers merge_markers)

lemma merge_errors: "errors (merge_with_preservation D G force) = []"
  by (cases force; cases "has_markers (parse_skill_md D)")
     (simp_all add: merge_force merge_no_markers merge_markers)

lemma wrap_has_start: "sublist GENERATED_START (wrap_generated_block G)"
proof (cases "frontmatter_match G")
  case None
  then show ?thesis by (simp add: wrap_generated_block_def)
next
  case (Some a)
  then obtain fm rest where "frontmatter_match G = Some (fm, rest)" by (cases a) auto
  then have "wrap_generated_block G = fm @ GENERATED_START @ ([NL] @ rest @ [NL] @ GENERATED_END)"
    by (simp add: wrap_generated_block_def)
  then show ?thesis by (simp only: sublist_appendI)
qed

lemma merge_has_start:
  "sublist GENERATED_START (merged_content (merge_with_preservation D G False))"
proof (cases "has_markers (parse_skill_md D)")
  case True
  have "GENERATED_START \<in> set (generated_lines G)"
    by (cases "frontmatter_match G") (auto simp: generated_lines_def)
  then have "GENERATED_START \<in> set (generated_lines G
       @ concat (map manual_lines (get_manual_blocks (parse_skill_md D))))" by simp
  then show ?thesis
    unfolding merge_markers [OF True] by (simp add: sublist_join)
next
  case False
  show ?thesis
    unfolding merge_no_markers [OF False] by (simp add: wrap_has_start)
qed

lemma frontmatter_match_dashes:
  assumes "frontmatter_match s = Some (fm, rest)"
  shows "prefix ''---'' fm"
proof -
  from assms obtain r0 where r0: "strip_prefix ''---'' s = Some r0"
    by (auto simp: frontmatter_match_def split: option.splits)
  then have s: "s = ''---'' @ r0" by (rule strip_prefix_Some)
  from frontmatter_match_split [OF assms] have sf: "s = fm @ rest" by blast
  from assms r0 obtain rs where "concat (map lazy_close (ws_then_nl r0)) = rest # rs"
    by (auto simp: frontmatter_match_def split: list.splits)
  then have "rest \<in> set (concat (map lazy_close (ws_then_nl r0)))" by simp
  then obtain r1 where "r1 \<in> set (ws_then_nl r0)" "rest \<in> set (lazy_close r1)" by auto
  then obtain a b where "r1 = a @ NL # rest" "r0 = b @ NL # r1"
    using lazy_close_split ws_then_nl_split by blast
  then have "s = (''---'' @ b @ NL # a @ [NL]) @ rest" using s by simp
  with sf have "fm = ''---'' @ b @ NL # a @ [NL]" by simp
  then show ?thesis by simp
qed

lemma strip_prefix_None: "\<not> prefix p s \<Longrightarrow> strip_prefix p s = None"
  by (induction p s rule: strip_prefix.induct) auto

lemma frontmatter_match_no_dashes: "\<not> prefix ''---'' G \<Longrightarrow> frontmatter_match G = None"
  by (simp add: frontmatter_match_def strip_prefix_None del: strip_prefix.simps)


text \<open>
  C7, as the code has it. When the previous document contains none of the four marker strings,
  the merge without \<open>force\<close> returns the single warning that no markers were found and the
  new content with one generated start marker and one generated end marker added. If the new
  content has no leading front matter block, which is the case whenever it does not start with
  three dashes, the merged content is start marker, newline, content, newline, end marker. If
  it has one, the front matter (it starts with three dashes and ends with a newline) stays in
  front of the start marker and only the remainder stands between the markers. The result is
  given by the new content alone: nothing of the previous document enters it.
\<close>

theorem no_markers_wraps_new_content:
  assumes "marker_free D"
  shows "merge_with_preservation D G False =
           \<lparr>success = True,
            merged_content =
              (case frontmatter_match G of
                 None \<Rightarrow> GENERATED_START @ [NL] @ G @ [NL] @ GENERATED_END
               | Some (fm, rest) \<Rightarrow> fm @ GENERATED_START @ [NL] @ rest @ [NL] @ GENERATED_END),
            manual_blocks_preserved = 0, generated_blocks_updated = 0,
            warnings = [''No markers found in existing content - wrapped new content in generated markers''],
            errors = []\<rparr>
         \<and> (\<forall>fm rest. frontmatter_match G = Some (fm, rest) \<longrightarrow>
              G = fm @ rest \<and> prefix ''---'' fm \<and> (\<exists>p. fm = p @ [NL]))
         \<and> (\<not> prefix ''---'' G' \<longrightarrow>
              merged_content (merge_with_preservation D G' False)
                = GENERATED_START @ [NL] @ G' @ [NL] @ GENERATED_END)"
proof -
  from assms have n: "\<not> has_markers (parse_skill_md D)"
    by (simp add: marker_free_def markers_def has_markers_iff)
  have w: "wrap_generated_block X =
              (case frontmatter_match X of
                 None \<Rightarrow> GENERATED_START @ [NL] @ X @ [NL] @ GENERATED_END
               | Some (fm, rest) \<Rightarrow> fm @ GENERATED_START @ [NL] @ rest @ [NL] @ GENERATED_END)" for X
    by (simp add: wrap_generated_block_def)
  have 1: "merge_with_preservation D G False =
           \<lparr>success = True,
            merged_content =
              (case frontmatter_match G of
                 None \<Rightarrow> GENERATED_START @ [NL] @ G @ [NL] @ GENERATED_END
               | Some (fm, rest) \<Rightarrow> fm @ GENERATED_START @ [NL] @ rest @ [NL] @ GENERATED_END),
            manual_blocks_preserved = 0, generated_blocks_updated = 0,
            warnings = [''No markers found in existing content - wrapped new content in generated markers''],
            errors = []\<rparr>"
    unfolding merge_no_markers [OF n] w ..
  have 2: "\<forall>fm rest. frontmatter_match G = Some (fm, rest) \<longrightarrow>
              G = fm @ rest \<and> prefix ''---'' fm \<and> (\<exists>p. fm = p @ [NL])"
    using frontmatter_match_split frontmatter_match_dashes by blast
  have 3: "\<not> prefix ''---'' G' \<longrightarrow>
              merged_content (merge_with_preservation D G' False)
                = GENERATED_START @ [NL] @ G' @ [NL] @ GENERATED_END"
    by (simp add: merge_no_markers [OF n] w frontmatter_match_no_dashes)
  from 1 2 3 show ?thesis by blast
qed

text \<open>A new content with front matter, and one without.\<close>

theorem no_markers_wraps_new_content_witness:
  "marker_free ''# Old notes''
   \<and> frontmatter_match (''---'' @ [NL] @ ''name: demo'' @ [NL] @ ''---'' @ [NL] @ ''# New'')
       = Some (''---'' @ [NL] @ ''name: demo'' @ [NL] @ ''---'' @ [NL], ''# New'')
   \<and> merged_content (merge_with_preservation ''# Old notes''
         (''---'' @ [NL] @ ''name: demo'' @ [NL] @ ''---'' @ [NL] @ ''# New'') False)
       = ''---'' @ [NL] @ ''name: demo'' @ [NL] @ ''---'' @ [NL]
         @ GENERATED_START @ [NL] @ ''# New'' @ [NL] @ GENERATED_END
   \<and> \<not> prefix ''---'' ''# New''
   \<and> merged_content (merge_with_preservation ''# Old notes'' ''# New'' False)
       = GENERATED_START @ [NL] @ ''# New'' @ [NL] @ GENERATED_END"
proof -
  let ?G = "''---'' @ [NL] @ ''name: demo'' @ [NL] @ ''---'' @ [NL] @ ''# New''"
  have h: "marker_free ''# Old notes''" by code_simp
  have f: "frontmatter_match ?G
       = Some (''---'' @ [NL] @ ''name: demo'' @ [NL] @ ''---'' @ [NL], ''# New'')"
    by code_simp
  have p: "\<not> prefix ''---'' ''# New''" by simp
  note t = no_markers_wraps_new_content [OF h, of ?G "''# New''"]
  from t have a: "merged_content (merge_with_preservation ''# Old notes'' ?G False)
     = (case frontmatter_match ?G of
                 None \<Rightarrow> GENERATED_START @ [NL] @ ?G @ [NL] @ GENERATED_END
               | Some (fm, rest) \<Rightarrow> fm @ GENERATED_START @ [NL] @ rest @ [NL] @ GENERATED_END)"
    by simp
  from t p have b: "merged_content (merge_with_preservation ''# Old notes'' ''# New'' False)
       = GENERATED_START @ [NL] @ ''# New'' @ [NL] @ GENERATED_END"
    by blast
  from a have a': "merged_content (merge_with_preservation ''# Old notes'' ?G False)
       = ''---'' @ [NL] @ ''name: demo'' @ [NL] @ ''---'' @ [NL]
         @ GENERATED_START @ [NL] @ ''# New'' @ [NL] @ GENERATED_END"
    unfolding f by simp
  from h f p a' b show ?thesis by blast
qed

text \<open>
  The new content as \<open>_generate_skill_md\<close> emits it starts with front matter: the merged
  content is then not the new content between the two markers, and does not start with the
  start marker.
\<close>

theorem front_matter_stays_outside_markers:
  "marker_free ''# Old notes''
   \<and> merged_content (merge_with_preservation ''# Old notes''
         (''---'' @ [NL] @ ''name: demo'' @ [NL] @ ''---'' @ [NL] @ ''# New'') False)
       = ''---'' @ [NL] @ ''name: demo'' @ [NL] @ ''---'' @ [NL]
         @ GENERATED_START @ [NL] @ ''# New'' @ [NL] @ GENERATED_END
   \<and> merged_content (merge_with_preservation ''# Old notes''
         (''---'' @ [NL] @ ''name: demo'' @ [NL] @ ''---'' @ [NL] @ ''# New'') False)
       \<noteq> GENERATED_START @ [NL]
         @ (''---'' @ [NL] @ ''name: demo'' @ [NL] @ ''---'' @ [NL] @ ''# New'')
         @ [NL] @ GENERATED_END"
  by code_simp

text \<open>
  C4, as the code has it. The merge has no failing path: whatever the previous document, the
  new content and the \<open>force\<close> flag, \<open>success\<close> is true and \<open>errors\<close> is empty, and merged
  content is produced. With \<open>force\<close> the merged content is the new content and the one warning
  reports the overwrite. Without \<open>force\<close> the merged content always contains the generated
  start marker: for a previous document \<open>D1\<close> without a start marker it is the wrapped new
  content, with the one warning that no markers were found; for a previous document \<open>D2\<close> with
  a start marker, well formed or not, it is the generated block followed by the manual blocks
  that \<open>parse_skill_md\<close> finds, all of them counted as preserved, with no warning.
\<close>

theorem merge_never_fails:
  "success (merge_with_preservation D G force)
   \<and> errors (merge_with_preservation D G force) = []
   \<and> merged_content (merge_with_preservation D G True) = G
   \<and> warnings (merge_with_preservation D G True) = [''Force mode: all existing content replaced'']
   \<and> sublist GENERATED_START (merged_content (merge_with_preservation D G False))
   \<and> (\<not> sublist GENERATED_START D1 \<and> \<not> sublist MANUAL_START D1 \<longrightarrow>
        merged_content (merge_with_preservation D1 G False) = wrap_generated_block G
        \<and> warnings (merge_with_preservation D1 G False)
            = [''No markers found in existing content - wrapped new content in generated markers''])
   \<and> (sublist GENERATED_START D2 \<or> sublist MANUAL_START D2 \<longrightarrow>
        merged_content (merge_with_preservation D2 G False)
          = join_nl (generated_lines G
                     @ concat (map manual_lines (get_manual_blocks (parse_skill_md D2))))
        \<and> manual_blocks_preserved (merge_with_preservation D2 G False)
            = length (get_manual_blocks (parse_skill_md D2))
        \<and> warnings (merge_with_preservation D2 G False) = [])"
proof (intro conjI impI)
  show "success (merge_with_preservation D G force)" by (rule merge_success)
  show "errors (merge_with_preservation D G force) = []" by (rule merge_errors)
  show "merged_content (merge_with_preservation D G True) = G" by (simp add: merge_force)
  show "warnings (merge_with_preservation D G True) = [''Force mode: all existing content replaced'']"
    by (simp add: merge_force)
  show "sublist GENERATED_START (merged_content (merge_with_preservation D G False))"
    by (rule merge_has_start)
next
  assume "\<not> sublist GENERATED_START D1 \<and> \<not> sublist MANUAL_START D1"
  then have n: "\<not> has_markers (parse_skill_md D1)" by (simp add: has_markers_iff)
  show "merged_content (merge_with_preservation D1 G False) = wrap_generated_block G"
    by (simp add: merge_no_markers [OF n])
  show "warnings (merge_with_preservation D1 G False)
            = [''No markers found in existing content - wrapped new content in generated markers'']"
    by (simp add: merge_no_markers [OF n])
next
  assume "sublist GENERATED_START D2 \<or> sublist MANUAL_START D2"
  then have m: "has_markers (parse_skill_md D2)" by (simp add: has_markers_iff)
  show "merged_content (merge_with_preservation D2 G False)
          = join_nl (generated_lines G
                     @ concat (map manual_lines (get_manual_blocks (parse_skill_md D2))))"
    by (simp add: merge_markers [OF m])
  show "manual_blocks_preserved (merge_with_preservation D2 G False)
            = length (get_manual_blocks (parse_skill_md D2))"
    by (simp add: merge_markers [OF m])
  show "warnings (merge_with_preservation D2 G False) = []"
    by (simp add: merge_markers [OF m])
qed

text \<open>A previous document without markers, and one that starts with an unmatched end marker.\<close>

theorem merge_never_fails_witness:
  "\<not> sublist GENERATED_START ''# Old notes'' \<and> \<not> sublist MANUAL_START ''# Old notes''
   \<and> merged_content (merge_with_preservation ''# Old notes'' ''g'' False)
       = GENERATED_START @ [NL] @ ''g'' @ [NL] @ GENERATED_END
   \<and> warnings (merge_with_preservation ''# Old notes'' ''g'' False)
       = [''No markers found in existing content - wrapped new content in generated markers'']
   \<and> sublist MANUAL_START (MANUAL_END @ [NL] @ MANUAL_START @ [NL] @ ''x'')
   \<and> manual_blocks_preserved
        (merge_with_preservation (MANUAL_END @ [NL] @ MANUAL_START @ [NL] @ ''x'') ''g'' False) = 1
   \<and> warnings
        (merge_with_preservation (MANUAL_END @ [NL] @ MANUAL_START @ [NL] @ ''x'') ''g'' False) = []"
proof -
  let ?D2 = "MANUAL_END @ [NL] @ MANUAL_START @ [NL] @ ''x''"
  have h1: "\<not> sublist GENERATED_START ''# Old notes'' \<and> \<not> sublist MANUAL_START ''# Old notes''"
    by code_simp
  have h2: "sublist MANUAL_START ?D2" by code_simp
  have w: "wrap_generated_block ''g'' = GENERATED_START @ [NL] @ ''g'' @ [NL] @ GENERATED_END"
    by code_simp
  have n: "length (get_manual_blocks (parse_skill_md ?D2)) = 1" by code_simp
  note t = merge_never_fails [of "''# Old notes''" "''g''" False "''# Old notes''" ?D2]
  from t h1 have a: "merged_content (merge_with_preservation ''# Old notes'' ''g'' False)
       = wrap_generated_block ''g''"
    "warnings (merge_with_preservation ''# Old notes'' ''g'' False)
       = [''No markers found in existing content - wrapped new content in generated markers'']"
    by blast+
  from t h2 have b: "manual_blocks_preserved (merge_with_preservation ?D2 ''g'' False)
       = length (get_manual_blocks (parse_skill_md ?D2))"
    "warnings (merge_with_preservation ?D2 ''g'' False) = []"
    by blast+
  from h1 h2 a b w n show ?thesis by simp
qed

text \<open>
  A previous document that starts with an end marker without a start: the merge succeeds and
  returns merged content, with the manual block kept.
\<close>

theorem unmatched_end_marker_merges:
  "success (merge_with_preservation (MANUAL_END @ [NL] @ MANUAL_START @ [NL] @ ''x'') ''g'' False)
   \<and> merged_content (merge_with_preservation (MANUAL_END @ [NL] @ MANUAL_START @ [NL] @ ''x'') ''g'' False)
       = GENERATED_START @ [NL] @ ''g'' @ [NL] @ GENERATED_END @ [NL, NL]
         @ MANUAL_START @ [NL] @ ''x'' @ [NL] @ MANUAL_END"
  by code_simp

text \<open>
  C1, as the code has it. Provided the new content does not contain the manual start marker,
  the merged document, parsed again, has exactly the manual blocks of the previous document,
  in the same order, each with its content stripped of leading and trailing whitespace; and
  \<open>manual_blocks_preserved\<close> is their number. This holds for every previous document, with
  or without markers.
\<close>

theorem manual_blocks_round_trip:
  assumes "\<not> sublist MANUAL_START G"
  shows "map content (get_manual_blocks
            (parse_skill_md (merged_content (merge_with_preservation D G False))))
         = map (\<lambda>b. strip (content b)) (get_manual_blocks (parse_skill_md D))
       \<and> manual_blocks_preserved (merge_with_preservation D G False)
         = length (get_manual_blocks (parse_skill_md D))"
proof (cases "has_markers (parse_skill_md D)")
  case False
  then have D: "get_manual_blocks (parse_skill_md D) = []"
    by (auto simp: parse_skill_md_def get_manual_blocks_def mk_block_def split: if_splits)
  from False have "merged_content (merge_with_preservation D G False) = wrap_generated_block G"
    and "manual_blocks_preserved (merge_with_preservation D G False) = 0"
    by (simp_all add: merge_with_preservation_def Let_def)
  moreover have "manual_contents (blocks (parse_skill_md (wrap_generated_block G))) = []"
    using assms wrap_generated_block_lines by (intro no_manual_start_no_manual_block) blast
  ultimately show ?thesis using D by (simp add: manual_contents_get)
next
  case True
  define ms where "ms = get_manual_blocks (parse_skill_md D)"
  define M where "M = join_nl (generated_lines G @ concat (map manual_lines ms))"
  from True have res: "merged_content (merge_with_preservation D G False) = M"
    and cnt: "manual_blocks_preserved (merge_with_preservation D G False) = length ms"
    by (simp_all add: merge_with_preservation_def Let_def M_def ms_def generated_lines_def)
  have gs: "GENERATED_START \<in> set (generated_lines G @ concat (map manual_lines ms))"
    using generated_lines_props(1) [OF assms] by simp
  then have hm: "sublist GENERATED_START M"
    unfolding M_def by (rule sublist_join)
  from generated_lines_props(1) [OF assms]
  have "generated_lines G @ concat (map manual_lines ms) \<noteq> []" by auto
  then have lines: "split_nl M = concat (map split_nl (generated_lines G))
      @ concat (map split_nl (concat (map manual_lines ms)))"
    unfolding M_def by (simp add: split_join_concat)
  obtain b1 c1 t1 s1 where
    f1: "foldl parse_step ([], [], UNMARKED, None) (concat (map split_nl (generated_lines G)))
         = (b1, c1, t1, s1)"
    by (cases "foldl parse_step ([], [], UNMARKED, None) (concat (map split_nl (generated_lines G)))") auto
  from fold_no_manual_start [OF generated_lines_props(2) [OF assms] _ f1]
  have t1: "t1 \<noteq> MANUAL" and m1: "manual_contents b1 = []" by simp_all
  obtain b2 c2 t2 s2 where
    f2: "foldl parse_step (b1, c1, t1, s1) (concat (map split_nl (concat (map manual_lines ms))))
         = (b2, c2, t2, s2)"
    by (cases "foldl parse_step (b1, c1, t1, s1) (concat (map split_nl (concat (map manual_lines ms))))") auto
  have "\<forall>b \<in> set ms. marker_free (strip (content b))"
  proof
    fix b assume "b \<in> set ms"
    then have "b \<in> set (blocks (parse_skill_md D))" by (simp add: ms_def get_manual_blocks_def)
    from parsed_blocks_marker_free [OF True this] show "marker_free (strip (content b))"
      using marker_free_sublist strip_sublist by blast
  qed
  from fold_manual_blocks [OF this t1 f2] m1
  have t2: "t2 \<noteq> MANUAL" and m2: "manual_contents b2 = map (\<lambda>b. strip (content b)) ms"
    by simp_all
  have "blocks (parse_skill_md M) = parse_finish (b2, c2, t2, s2)"
    using hm lines f1 f2 by (simp add: parse_skill_md_def)
  then have "manual_contents (blocks (parse_skill_md M)) = map (\<lambda>b. strip (content b)) ms"
    using t2 m2 by (simp add: manual_contents_finish del: parse_finish.simps)
  then show ?thesis using res cnt by (simp add: manual_contents_get ms_def)
qed

theorem manual_blocks_round_trip_witness:
  "\<not> sublist MANUAL_START ''# Title''
   \<and> map content (get_manual_blocks (parse_skill_md (merged_content
        (merge_with_preservation
           (GENERATED_START @ [NL] @ ''old'' @ [NL] @ GENERATED_END @ [NL]
            @ MANUAL_START @ [NL] @ ''  my note '' @ [NL] @ MANUAL_END)
           ''# Title'' False))))
     = [''my note'']"
proof -
  have h: "\<not> sublist MANUAL_START ''# Title''" by code_simp
  have d: "map (\<lambda>b. strip (content b)) (get_manual_blocks (parse_skill_md
           (GENERATED_START @ [NL] @ ''old'' @ [NL] @ GENERATED_END @ [NL]
            @ MANUAL_START @ [NL] @ ''  my note '' @ [NL] @ MANUAL_END))) = [''my note'']"
    by code_simp
  from manual_blocks_round_trip [OF h] h d show ?thesis by simp
qed

text \<open>
  The claim for every new content fails: new content that itself carries a manual block adds
  that block to the merged document.
\<close>

theorem manual_marker_in_new_content_adds_block:
  "sublist MANUAL_START (MANUAL_START @ [NL] @ ''foo'' @ [NL] @ MANUAL_END)
   \<and> map content (get_manual_blocks (parse_skill_md
        (MANUAL_START @ [NL] @ ''foo'' @ [NL] @ MANUAL_END))) = [''foo'']
   \<and> map content (get_manual_blocks (parse_skill_md (merged_content
        (merge_with_preservation (MANUAL_START @ [NL] @ ''foo'' @ [NL] @ MANUAL_END)
           (MANUAL_START @ [NL] @ ''bar'' @ [NL] @ MANUAL_END) False))))
     = [''bar'', ''foo'']"
  by code_simp

section \<open>Decision rules and schema validation\<close>

lemma dict_has_set: "dict_has (dict_set d k v) k"
  by (induction d) (force simp: dict_has_def)+


lemma has_id_simps [simp]:
  "has_id PNone" "has_id (PBool b)" "has_id (PInt n)" "has_id (PStr s)" "has_id (PList l)"
  "has_id (PDict d) = dict_has d ''id''"
  by (simp_all add: has_id_def)

lemma ensure_rule_ids_has_id: "v \<in> set (ensure_rule_ids rs i) \<Longrightarrow> has_id v"
proof (induction rs arbitrary: i)
  case Nil
  then show ?case by simp
next
  case (Cons r rs)
  then show ?case
    by (cases r) (auto simp: dict_has_set)
qed

lemma legacy_rules_has_id: "v \<in> set (legacy_rules d) \<Longrightarrow> has_id v"
proof (induction d)
  case Nil
  then show ?case by simp
next
  case (Cons kv d)
  obtain k x where kv: "kv = (k, x)" by (cases kv) auto
  from Cons kv show ?case
    by (cases x) (auto simp: dict_has_set split: if_splits)
qed

lemma ensure_rule_ids_noop: "\<forall>v \<in> set rs. has_id v \<Longrightarrow> ensure_rule_ids rs i = rs"
proof (induction rs arbitrary: i)
  case Nil
  then show ?case by simp
next
  case (Cons r rs)
  then show ?case by (cases r) auto
qed

lemma ensure_rule_ids_idem: "ensure_rule_ids (ensure_rule_ids rs i) j = ensure_rule_ids rs i"
  using ensure_rule_ids_has_id by (intro ensure_rule_ids_noop) blast

lemma ensure_legacy: "ensure_rule_ids (legacy_rules d) j = legacy_rules d"
  using legacy_rules_has_id by (intro ensure_rule_ids_noop) blast

text \<open>
  C3. \<open>extract_rules\<close> is idempotent on every input: the canonical object, the legacy keyed
  object, the bare list, and any other value (which it returns unchanged).
\<close>

theorem extract_rules_idempotent: "extract_rules (extract_rules x) = extract_rules x"
proof (cases x)
  case (PDict d)
  show ?thesis
  proof (cases "dict_has d ''rules''")
    case True
    then show ?thesis using PDict
      by (cases "dict_get d ''rules'' PNone")
         (simp_all add: extract_rules_def Let_def dict_has_def dict_get_def ensure_rule_ids_idem)
  next
    case False
    then show ?thesis using PDict
      by (simp add: extract_rules_def Let_def dict_has_def dict_get_def ensure_legacy)
  qed
next
  case (PList l)
  then show ?thesis
    by (simp add: extract_rules_def Let_def dict_has_def dict_get_def ensure_rule_ids_idem)
qed (simp_all add: extract_rules_def)






lemma section_case_filled:
  assumes "section_filled spec s"
  shows "(case map_of spec s of
          None \<Rightarrow> a
        | Some PNone \<Rightarrow> b
        | Some (PList []) \<Rightarrow> c
        | Some _ \<Rightarrow> r) = r"
proof -
  from assms obtain v where v: "map_of spec s = Some v" "v \<noteq> PNone" "v \<noteq> PList []"
    by (auto simp: section_filled_def split: option.splits)
  then show ?thesis
    by (cases v) (auto split: list.splits)
qed

lemma check_required_sections_filled:
  "\<forall>s \<in> set secs. section_filled spec s \<Longrightarrow> check_required_sections secs spec r = r"
  by (induction secs arbitrary: r) (simp_all add: section_case_filled)

lemma check_required_sections_warnings:
  "schema_warnings (check_required_sections secs spec r) = schema_warnings r"
proof (induction secs arbitrary: r)
  case Nil
  then show ?case by simp
next
  case (Cons s secs)
  show ?case
    by (simp add: Cons.IH add_error_def split: option.splits pyval.splits list.splits)
qed

lemma check_required_sections_valid:
  "valid (check_required_sections secs spec r)
   = (valid r \<and> (\<forall>s \<in> set secs. section_filled spec s))"
proof (induction secs arbitrary: r)
  case Nil
  then show ?case by simp
next
  case (Cons s secs)
  show ?case
    by (auto simp: Cons.IH add_error_def section_filled_def
          split: option.splits pyval.splits list.splits)
qed

lemma check_required_sections_append:
  "check_required_sections (xs @ ys) spec r
   = check_required_sections ys spec (check_required_sections xs spec r)"
  by (induction xs arbitrary: r) simp_all

lemma check_required_sections_empty_list:
  "map_of spec s = Some (PList []) \<Longrightarrow>
   check_required_sections [s] spec r
   = add_error r s (''Section '' @ quoted s @ '' is empty'')
       (Some (''Add at least one item to '' @ quoted s))"
  by simp

lemma required_sections_split:
  "REQUIRED_SECTIONS = [''skill''] @ [''inputs'']
     @ [''preconditions'', ''non_goals'', ''decision_rules'',
        ''steps'', ''output_contract'', ''failure_modes'', ''edge_cases'']"
  by (simp add: REQUIRED_SECTIONS_def CORE_SECTIONS_def COVERAGE_SECTIONS_def)

text \<open>
  C6, as the code has it. When \<open>inputs\<close> is the empty list, every other required section is
  present, not null and not an empty list, and \<open>spec_version\<close> is present with a hashable
  value, \<open>validate\<close> returns an invalid result with exactly one error: path \<open>inputs\<close>, with the
  suggestion to add at least one item to \<open>inputs\<close>. The typed validation is not reached.
\<close>

theorem empty_inputs_one_error:
  assumes "map_of spec ''inputs'' = Some (PList [])"
    and "\<forall>s \<in> set REQUIRED_SECTIONS - {''inputs''}. section_filled spec s"
    and "map_of spec ''spec_version'' = Some ver" and "hashable ver"
  shows "\<exists>r. validate fv spec = Inr r \<and> \<not> valid r
           \<and> schema_errors r =
               [\<lparr>path = ''inputs'', message = ''Section '' @ quoted ''inputs'' @ '' is empty'',
                 suggestion = Some (''Add at least one item to '' @ quoted ''inputs'')\<rparr>]"
proof -
  define r0 where "r0 = \<lparr>valid = True, schema_errors = [], schema_warnings = []\<rparr>"
  define e where "e = \<lparr>path = ''inputs'', message = ''Section '' @ quoted ''inputs'' @ '' is empty'',
                 suggestion = Some (''Add at least one item to '' @ quoted ''inputs'')\<rparr>"
  define r1 where "r1 = \<lparr>valid = False, schema_errors = [e], schema_warnings = []\<rparr>"
  have rest: "\<forall>s \<in> set [''preconditions'', ''non_goals'', ''decision_rules'',
     ''steps'', ''output_contract'', ''failure_modes'', ''edge_cases'']. section_filled spec s"
    and skill: "\<forall>s \<in> set [''skill'']. section_filled spec s"
    using assms(2) unfolding required_sections_split by simp_all
  have a: "check_required_sections [''skill''] spec r0 = r0"
    using skill by (rule check_required_sections_filled)
  have b: "check_required_sections [''inputs''] spec r0 = r1"
    unfolding check_required_sections_empty_list [OF assms(1)]
    by (simp add: add_error_def r0_def r1_def e_def)
  have c: "check_required_sections [''preconditions'', ''non_goals'', ''decision_rules'',
     ''steps'', ''output_contract'', ''failure_modes'', ''edge_cases''] spec r1 = r1"
    using rest by (rule check_required_sections_filled)
  have 1: "check_required_sections REQUIRED_SECTIONS spec r0 = r1"
    unfolding required_sections_split check_required_sections_append a b c ..
  have "\<exists>r. check_spec_version spec r1 = Inr r \<and> \<not> valid r \<and> schema_errors r = [e]"
    using assms(3,4)
    by (simp add: check_spec_version_def add_warning_def r1_def)
  then obtain r where r: "check_spec_version spec r1 = Inr r" "\<not> valid r" "schema_errors r = [e]"
    by blast
  have "validate fv spec = Inr r"
    unfolding validate_def r0_def [symmetric] 1 using r by simp
  with r show ?thesis unfolding e_def by blast
qed

text \<open>The example specification with \<open>inputs: []\<close>.\<close>

theorem empty_inputs_one_error_witness:
  "map_of (example_spec (Some (PStr ''skill-spec/1.1'')) (PList []) example_rules example_steps None)
      ''inputs'' = Some (PList [])
   \<and> hashable (PStr ''skill-spec/1.1'')
   \<and> (\<exists>r. validate (fields_accept (example_typed ''skill-spec/1.1'' (RulesList [example_rule]) [load_step, check_step] None))
            (example_spec (Some (PStr ''skill-spec/1.1'')) (PList []) example_rules example_steps None) = Inr r
          \<and> \<not> valid r \<and> map path (schema_errors r) = [''inputs''])"
proof -
  let ?spec = "example_spec (Some (PStr ''skill-spec/1.1'')) (PList []) example_rules example_steps None"
  have 1: "map_of ?spec ''inputs'' = Some (PList [])" by (simp add: example_spec_def)
  have 2: "\<forall>s \<in> set REQUIRED_SECTIONS - {''inputs''}. section_filled ?spec s"
    by (auto simp: required_sections_split section_filled_def example_spec_def
          example_rules_def example_steps_def)
  have 3: "map_of ?spec ''spec_version'' = Some (PStr ''skill-spec/1.1'')"
    by (simp add: example_spec_def)
  have 4: "hashable (PStr ''skill-spec/1.1'')" by simp
  from empty_inputs_one_error [OF 1 2 3 4] 1 4 show ?thesis by fastforce
qed

text \<open>
  Without the \<open>spec_version\<close> key, which is not one of the required sections, the same
  dictionary gets two errors.
\<close>

theorem empty_inputs_without_version_two_errors:
  "map (\<lambda>s. section_filled (example_spec None (PList []) example_rules example_steps None) s)
       REQUIRED_SECTIONS
     = [True, False, True, True, True, True, True, True, True]
   \<and> (case validate (fields_accept (example_typed ''skill-spec/1.0'' (RulesList [example_rule]) [load_step, check_step] None))
              (example_spec None (PList []) example_rules example_steps None) of
        Inl e \<Rightarrow> []
      | Inr r \<Rightarrow> map path (schema_errors r)) = [''inputs'', ''spec_version'']"
  by code_simp

lemma produced_before_0 [simp]: "produced_before ss 0 = {}"
  by (simp add: produced_before_def)

lemma produced_before_Suc [simp]:
  "produced_before (s # ss) (Suc i)
   = (if str_truthy (step_output s) then insert (the (step_output s)) (produced_before ss i)
      else produced_before ss i)"
  by (simp add: produced_before_def)

lemma check_steps_Cons:
  "check_steps A (s # ss) =
     (case find (\<lambda>dep. dep \<notin> A) (deps_of s) of
        Some dep \<Rightarrow> Inl (ValueError (step_dependency_msg (step_id s) dep))
      | None \<Rightarrow>
          check_steps (if str_truthy (step_output s) then insert (the (step_output s)) A else A) ss)"
  by simp

lemma check_steps_ok:
  "(\<forall>i < length ss. \<forall>d \<in> set (deps_of (ss ! i)). d \<in> A \<union> produced_before ss i)
   \<Longrightarrow> check_steps A ss = Inr ()"
proof (induction ss arbitrary: A)
  case Nil
  then show ?case by simp
next
  case (Cons s ss)
  from Cons.prems have "\<forall>d \<in> set (deps_of s). d \<in> A" by fastforce
  then have f: "find (\<lambda>dep. dep \<notin> A) (deps_of s) = None"
    by (simp add: find_None_iff)
  let ?A = "if str_truthy (step_output s) then insert (the (step_output s)) A else A"
  have "\<forall>i < length ss. \<forall>d \<in> set (deps_of (ss ! i)). d \<in> ?A \<union> produced_before ss i"
  proof (intro allI impI ballI)
    fix i d assume "i < length ss" "d \<in> set (deps_of (ss ! i))"
    with Cons.prems have "d \<in> A \<union> produced_before (s # ss) (Suc i)"
      by (metis Suc_less_eq length_Cons nth_Cons_Suc)
    then show "d \<in> ?A \<union> produced_before ss i"
      by (auto split: if_splits)
  qed
  from Cons.IH [OF this] f show ?case
    by (simp only: check_steps_Cons option.case)
qed

lemma check_steps_first_missing:
  assumes "i < length ss" "d \<in> set (deps_of (ss ! i))" "d \<notin> A \<union> produced_before ss i"
  shows "\<exists>k d'. k \<le> i
           \<and> (\<forall>j < k. \<forall>x \<in> set (deps_of (ss ! j)). x \<in> A \<union> produced_before ss j)
           \<and> find (\<lambda>x. x \<notin> A \<union> produced_before ss k) (deps_of (ss ! k)) = Some d'
           \<and> check_steps A ss = Inl (ValueError (step_dependency_msg (step_id (ss ! k)) d'))"
  using assms
proof (induction ss arbitrary: A i)
  case Nil
  then show ?case by simp
next
  case (Cons s ss)
  show ?case
  proof (cases "find (\<lambda>dep. dep \<notin> A) (deps_of s)")
    case (Some d')
    have "check_steps A (s # ss) = Inl (ValueError (step_dependency_msg (step_id s) d'))"
      using Some by (simp only: check_steps_Cons option.case)
    with Some show ?thesis
      by (intro exI [of _ 0] exI [of _ d']) simp
  next
    case None
    then have all: "\<forall>x \<in> set (deps_of s). x \<in> A" by (simp add: find_None_iff)
    let ?A = "if str_truthy (step_output s) then insert (the (step_output s)) A else A"
    have eq: "A \<union> produced_before (s # ss) (Suc j) = ?A \<union> produced_before ss j" for j
      by auto
    from Cons.prems all obtain j where j: "i = Suc j"
      by (cases i) auto
    with Cons.prems have "j < length ss" "d \<in> set (deps_of (ss ! j))"
      "d \<notin> ?A \<union> produced_before ss j"
      by (auto split: if_splits)
    from Cons.IH [OF this] obtain k d' where k: "k \<le> j"
      "\<forall>j < k. \<forall>x \<in> set (deps_of (ss ! j)). x \<in> ?A \<union> produced_before ss j"
      "find (\<lambda>x. x \<notin> ?A \<union> produced_before ss k) (deps_of (ss ! k)) = Some d'"
      "check_steps ?A ss = Inl (ValueError (step_dependency_msg (step_id (ss ! k)) d'))"
      by blast
    have c: "check_steps A (s # ss) = check_steps ?A ss"
      using None by (simp only: check_steps_Cons option.case)
    have b: "\<forall>j < Suc k. \<forall>x \<in> set (deps_of ((s # ss) ! j)). x \<in> A \<union> produced_before (s # ss) j"
    proof (intro allI impI)
      fix j' assume "j' < Suc k"
      show "\<forall>x \<in> set (deps_of ((s # ss) ! j')). x \<in> A \<union> produced_before (s # ss) j'"
      proof (cases j')
        case 0
        with all show ?thesis by simp
      next
        case (Suc m)
        with \<open>j' < Suc k\<close> have "m < k" by simp
        with k(2) have "\<forall>x \<in> set (deps_of (ss ! m)). x \<in> ?A \<union> produced_before ss m" by blast
        then show ?thesis unfolding Suc eq by simp
      qed
    qed
    have f: "find (\<lambda>x. x \<notin> A \<union> produced_before (s # ss) (Suc k)) (deps_of ((s # ss) ! Suc k)) = Some d'"
      unfolding eq using k(3) by simp
    have e: "check_steps A (s # ss)
              = Inl (ValueError (step_dependency_msg (step_id ((s # ss) ! Suc k)) d'))"
      using c k(4) by simp
    from k(1) j have "Suc k \<le> i" by simp
    with b f e show ?thesis by blast
  qed
qed

lemma check_edge_cases_ok:
  "(\<forall>ec \<in> set ecs.
      (str_truthy (covers_rule ec) \<longrightarrow> PStr (the (covers_rule ec)) \<in> set ids)
      \<and> (str_truthy (covers_failure ec) \<longrightarrow> the (covers_failure ec) \<in> codes))
   \<Longrightarrow> check_edge_cases ids codes ecs = Inr ()"
  by (induction ecs) simp_all

lemma checks_before_pydantic:
  assumes "\<forall>s \<in> set REQUIRED_SECTIONS. section_filled spec s"
    and "map_of spec ''spec_version'' = Some v" "hashable v"
  shows "\<exists>r. check_spec_version spec
            (check_required_sections REQUIRED_SECTIONS spec
               \<lparr>valid = True, schema_errors = [], schema_warnings = []\<rparr>) = Inr r
          \<and> valid r \<and> schema_errors r = []"
  using assms(2,3)
  by (simp add: check_required_sections_filled [OF assms(1)] check_spec_version_def
        add_warning_def)

lemma validate_filled:
  assumes "\<forall>s \<in> set REQUIRED_SECTIONS. section_filled spec s"
    and "map_of spec ''spec_version'' = Some v" "hashable v"
  shows "\<exists>r. valid r \<and> schema_errors r = []
          \<and> validate fv spec = validate_with_pydantic fv spec r"
proof -
  from checks_before_pydantic [OF assms] obtain r where
    "check_spec_version spec
            (check_required_sections REQUIRED_SECTIONS spec
               \<lparr>valid = True, schema_errors = [], schema_warnings = []\<rparr>) = Inr r"
    "valid r" "schema_errors r = []" by blast
  then show ?thesis by (auto simp: validate_def)
qed

lemma cross_references_steps:
  assumes "collect_rule_ids (decision_rules self) = Inr ids" "edge_refs_resolve ids self"
  shows "validate_cross_references self
         = (case check_steps {} (steps self) of Inl e \<Rightarrow> Inl e | Inr _ \<Rightarrow> Inr self)"
proof -
  have "check_edge_cases ids (code ` set (failure_modes self)) (edge_cases self) = Inr ()"
    using assms(2) unfolding edge_refs_resolve_def by (rule check_edge_cases_ok)
  then show ?thesis
    using assms(1) by (simp add: validate_cross_references_def)
qed

lemma validate_step_error:
  assumes "\<forall>s \<in> set REQUIRED_SECTIONS. section_filled spec s"
    and "map_of spec ''spec_version'' = Some v" "hashable v"
    and "fv spec = Inr self"
    and "collect_rule_ids (decision_rules self) = Inr ids" "edge_refs_resolve ids self"
    and "check_steps {} (steps self) = Inl (ValueError (step_dependency_msg sid dep))"
  shows "\<exists>r. validate fv spec = Inr r \<and> \<not> valid r
           \<and> schema_errors r = [step_dependency_error sid dep]"
proof -
  from validate_filled [OF assms(1-3)] obtain r where
    r: "valid r" "schema_errors r = []" "validate fv spec = validate_with_pydantic fv spec r"
    by blast
  have "validate_cross_references self = Inl (ValueError (step_dependency_msg sid dep))"
    using cross_references_steps [OF assms(5,6)] assms(7) by simp
  then have "model_validate fv spec
      = Inr [\<lparr>loc = [], msg = ''Value error, '' @ step_dependency_msg sid dep,
              error_type = ''value_error''\<rparr>]"
    using assms(4) by (simp add: model_validate_def)
  then have "validate_with_pydantic fv spec r
      = Inr (add_error r [] (''Value error, '' @ step_dependency_msg sid dep) None)"
    by (simp add: validate_with_pydantic_def get_suggestion_for_error_def)
  with r show ?thesis
    by (simp add: add_error_def step_dependency_error_def)
qed

lemma validate_steps_ok:
  assumes "\<forall>s \<in> set REQUIRED_SECTIONS. section_filled spec s"
    and "map_of spec ''spec_version'' = Some v" "hashable v"
    and "fv spec = Inr self"
    and "collect_rule_ids (decision_rules self) = Inr ids" "edge_refs_resolve ids self"
    and "well_ordered_steps (steps self)"
  shows "\<exists>r. validate fv spec = Inr r \<and> valid r \<and> schema_errors r = []"
proof -
  from validate_filled [OF assms(1-3)] obtain r where
    r: "valid r" "schema_errors r = []" "validate fv spec = validate_with_pydantic fv spec r"
    by blast
  have "check_steps {} (steps self) = Inr ()"
    using assms(7) unfolding well_ordered_steps_def by (intro check_steps_ok) simp
  then have "validate_cross_references self = Inr self"
    using cross_references_steps [OF assms(5,6)] by simp
  then have "model_validate fv spec = Inr []"
    using assms(4) by (simp add: model_validate_def)
  then have "validate_with_pydantic fv spec r = Inr r"
    by (simp add: validate_with_pydantic_def)
  with r show ?thesis by simp
qed

lemma cross_references_reject:
  assumes "check_steps {} (steps self) = Inl e"
  shows "validate_cross_references self \<noteq> Inr x"
  using assms
  by (simp add: validate_cross_references_def split: sum.splits)

lemma validate_never_accepts:
  assumes "fv spec = Inr self" "check_steps {} (steps self) = Inl e"
    and "validate fv spec = Inr r"
  shows "\<not> valid r"
proof (rule ccontr)
  assume "\<not> \<not> valid r"
  then have v: "valid r" by simp
  obtain r0 where r0: "check_spec_version spec
             (check_required_sections REQUIRED_SECTIONS spec
                \<lparr>valid = True, schema_errors = [], schema_warnings = []\<rparr>) = Inr r0"
    using assms(3) by (auto simp: validate_def split: sum.splits)
  have "valid r0"
  proof (rule ccontr)
    assume "\<not> valid r0"
    with r0 assms(3) have "r = r0" by (simp add: validate_def)
    with v \<open>\<not> valid r0\<close> show False by simp
  qed
  with r0 assms(3) have p: "validate_with_pydantic fv spec r0 = Inr r"
    by (simp add: validate_def)
  obtain x where x: "validate_cross_references self = Inl x"
    using cross_references_reject [OF assms(2)]
    by (cases "validate_cross_references self") auto
  from p obtain errs where errs: "model_validate fv spec = Inr errs"
    by (auto simp: validate_with_pydantic_def split: sum.splits)
  with x assms(1) obtain m where m: "x = ValueError m"
    "errs = [\<lparr>loc = [], msg = ''Value error, '' @ m, error_type = ''value_error''\<rparr>]"
    by (cases x) (auto simp: model_validate_def)
  from p errs m have "r = add_error r0 [] (''Value error, '' @ m) None"
    by (simp add: validate_with_pydantic_def get_suggestion_for_error_def)
  then have "\<not> valid r" by (simp add: add_error_def)
  with v show False by simp
qed

text \<open>
  C5, as the code has it. Take a dictionary whose field validation gives the typed object
  \<open>self\<close>. If some step of \<open>self\<close> depends on a name that no strictly earlier step has as a
  non-empty \<open>output\<close>, \<open>validate\<close> never returns a valid result. If moreover the dictionary
  passes the section and version checks (every required section filled, \<open>spec_version\<close> present
  and hashable), the rule ids can be collected (no unhashable id) and the edge case references
  resolve, then \<open>validate\<close> returns an invalid result whose only error names the first step \<open>k\<close>
  with a missing dependency and the first missing entry of its \<open>based_on\<close>. Under these same
  conditions, if the steps are replaced by a list in which every dependency is a non-empty
  \<open>output\<close> of a strictly earlier step (a reordering, for one), all else equal, \<open>validate\<close>
  returns a valid result without errors.
\<close>

theorem step_dependency_ordering:
  assumes "fv spec = Inr self"
  shows "(\<forall>i d. i < length (steps self) \<and> d \<in> set (deps_of (steps self ! i))
              \<and> d \<notin> produced_before (steps self) i \<longrightarrow>
            (\<forall>r. validate fv spec = Inr r \<longrightarrow> \<not> valid r))
       \<and> ((\<forall>s \<in> set REQUIRED_SECTIONS. section_filled spec s)
           \<and> map_of spec ''spec_version'' = Some v \<and> hashable v
           \<and> collect_rule_ids (decision_rules self) = Inr ids \<and> edge_refs_resolve ids self \<longrightarrow>
            (\<forall>i d. i < length (steps self) \<and> d \<in> set (deps_of (steps self ! i))
                 \<and> d \<notin> produced_before (steps self) i \<longrightarrow>
               (\<exists>r k d'. validate fv spec = Inr r \<and> \<not> valid r
                  \<and> schema_errors r = [step_dependency_error (step_id (steps self ! k)) d']
                  \<and> k \<le> i
                  \<and> (\<forall>j < k. \<forall>x \<in> set (deps_of (steps self ! j)).
                         x \<in> produced_before (steps self) j)
                  \<and> find (\<lambda>x. x \<notin> produced_before (steps self) k) (deps_of (steps self ! k))
                      = Some d'))
            \<and> (\<forall>spec' fv' ss'.
                 (\<forall>s \<in> set REQUIRED_SECTIONS. section_filled spec' s)
                 \<and> map_of spec' ''spec_version'' = Some v
                 \<and> fv' spec' = Inr (self\<lparr>steps := ss'\<rparr>)
                 \<and> well_ordered_steps ss' \<longrightarrow>
                (\<exists>r. validate fv' spec' = Inr r \<and> valid r \<and> schema_errors r = [])))"
proof (intro conjI allI impI)
  fix i d r
  assume a: "i < length (steps self) \<and> d \<in> set (deps_of (steps self ! i))
              \<and> d \<notin> produced_before (steps self) i"
    and r: "validate fv spec = Inr r"
  from a have "d \<notin> {} \<union> produced_before (steps self) i" by simp
  from check_steps_first_missing [OF _ _ this] a
  obtain e where "check_steps {} (steps self) = Inl e" by blast
  from validate_never_accepts [OF assms this r] show "\<not> valid r" .
next
  fix i d
  assume c: "(\<forall>s \<in> set REQUIRED_SECTIONS. section_filled spec s)
           \<and> map_of spec ''spec_version'' = Some v \<and> hashable v
           \<and> collect_rule_ids (decision_rules self) = Inr ids \<and> edge_refs_resolve ids self"
    and a: "i < length (steps self) \<and> d \<in> set (deps_of (steps self ! i))
              \<and> d \<notin> produced_before (steps self) i"
  from a have "d \<notin> {} \<union> produced_before (steps self) i" by simp
  from check_steps_first_missing [OF _ _ this] a
  obtain k d' where k: "k \<le> i"
    "\<forall>j < k. \<forall>x \<in> set (deps_of (steps self ! j)). x \<in> produced_before (steps self) j"
    "find (\<lambda>x. x \<notin> produced_before (steps self) k) (deps_of (steps self ! k)) = Some d'"
    "check_steps {} (steps self)
       = Inl (ValueError (step_dependency_msg (step_id (steps self ! k)) d'))"
    by auto
  from c have c1: "\<forall>s \<in> set REQUIRED_SECTIONS. section_filled spec s"
    and c2: "map_of spec ''spec_version'' = Some v" and c3: "hashable v"
    and c4: "collect_rule_ids (decision_rules self) = Inr ids"
    and c5: "edge_refs_resolve ids self" by blast+
  from validate_step_error [of spec v fv self ids, OF c1 c2 c3 assms c4 c5 k(4)] k(1-3)
  show "\<exists>r k d'. validate fv spec = Inr r \<and> \<not> valid r
                  \<and> schema_errors r = [step_dependency_error (step_id (steps self ! k)) d']
                  \<and> k \<le> i
                  \<and> (\<forall>j < k. \<forall>x \<in> set (deps_of (steps self ! j)).
                         x \<in> produced_before (steps self) j)
                  \<and> find (\<lambda>x. x \<notin> produced_before (steps self) k) (deps_of (steps self ! k))
                      = Some d'"
    by blast
next
  fix spec' and fv' :: field_validation and ss'
  assume c: "(\<forall>s \<in> set REQUIRED_SECTIONS. section_filled spec s)
           \<and> map_of spec ''spec_version'' = Some v \<and> hashable v
           \<and> collect_rule_ids (decision_rules self) = Inr ids \<and> edge_refs_resolve ids self"
    and a: "(\<forall>s \<in> set REQUIRED_SECTIONS. section_filled spec' s)
             \<and> map_of spec' ''spec_version'' = Some v
             \<and> fv' spec' = Inr (self\<lparr>steps := ss'\<rparr>)
             \<and> well_ordered_steps ss'"
  from c have c3: "hashable v"
    and c4: "collect_rule_ids (decision_rules self) = Inr ids"
    and c5: "edge_refs_resolve ids self" by blast+
  have "collect_rule_ids (decision_rules (self\<lparr>steps := ss'\<rparr>)) = Inr ids"
    "edge_refs_resolve ids (self\<lparr>steps := ss'\<rparr>)"
    "well_ordered_steps (steps (self\<lparr>steps := ss'\<rparr>))"
    using c4 c5 a by (simp_all add: edge_refs_resolve_def)
  from validate_steps_ok [of spec' v fv' "self\<lparr>steps := ss'\<rparr>" ids, OF _ _ c3 _ this] a
  show "\<exists>r. validate fv' spec' = Inr r \<and> valid r \<and> schema_errors r = []"
    by blast
qed

text \<open>
  Three steps with the consumer first: both entries of its \<open>based_on\<close> are missing and the
  error names the first. In the right order the same steps pass.
\<close>

theorem step_dependency_ordering_witness:
  "list_all (section_filled (example_spec (Some (PStr ''skill-spec/1.1'')) example_inputs
         example_rules (steps_dict [report_step, load_step, summary_step]) None)) REQUIRED_SECTIONS
   \<and> hashable (PStr ''skill-spec/1.1'')
   \<and> edge_refs_resolve [PStr ''rule_empty'']
        (example_typed ''skill-spec/1.1'' (RulesList [example_rule])
           [report_step, load_step, summary_step] None)
   \<and> deps_of ([report_step, load_step, summary_step] ! 0) = [''text_value'', ''summary'']
   \<and> ''summary'' \<notin> produced_before [report_step, load_step, summary_step] 0
   \<and> (\<exists>r. validate (fields_accept (example_typed ''skill-spec/1.1'' (RulesList [example_rule])
                    [report_step, load_step, summary_step] None))
           (example_spec (Some (PStr ''skill-spec/1.1'')) example_inputs example_rules
              (steps_dict [report_step, load_step, summary_step]) None) = Inr r
        \<and> \<not> valid r
        \<and> schema_errors r = [step_dependency_error ''report'' ''text_value''])
   \<and> well_ordered_steps [load_step, summary_step, report_step]
   \<and> (\<exists>r. validate (fields_accept (example_typed ''skill-spec/1.1'' (RulesList [example_rule])
                    [load_step, summary_step, report_step] None))
           (example_spec (Some (PStr ''skill-spec/1.1'')) example_inputs example_rules
              (steps_dict [load_step, summary_step, report_step]) None) = Inr r
        \<and> valid r \<and> schema_errors r = [])"
proof -
  let ?bs = "[report_step, load_step, summary_step]"
  let ?gs = "[load_step, summary_step, report_step]"
  let ?bad = "example_spec (Some (PStr ''skill-spec/1.1'')) example_inputs example_rules
         (steps_dict ?bs) None"
  let ?good = "example_spec (Some (PStr ''skill-spec/1.1'')) example_inputs example_rules
         (steps_dict ?gs) None"
  let ?self = "example_typed ''skill-spec/1.1'' (RulesList [example_rule]) ?bs None"
  let ?self' = "example_typed ''skill-spec/1.1'' (RulesList [example_rule]) ?gs None"
  have h1: "\<forall>s \<in> set REQUIRED_SECTIONS. section_filled ?bad s" by code_simp
  have h1b: "\<forall>s \<in> set REQUIRED_SECTIONS. section_filled ?good s" by code_simp
  have h2: "map_of ?bad ''spec_version'' = Some (PStr ''skill-spec/1.1'')"
    "map_of ?good ''spec_version'' = Some (PStr ''skill-spec/1.1'')"
    by (simp_all add: example_spec_def)
  have h3: "hashable (PStr ''skill-spec/1.1'')" by simp
  have h4: "fields_accept ?self ?bad = Inr ?self" by (simp add: fields_accept_def)
  have h4b: "fields_accept ?self' ?good = Inr (?self\<lparr>steps := ?gs\<rparr>)"
    by (simp add: fields_accept_def example_typed_def)
  have h5: "collect_rule_ids (decision_rules ?self) = Inr [PStr ''rule_empty'']"
    by (simp add: collect_rule_ids_def example_typed_def example_rule_def)
  have h6: "edge_refs_resolve [PStr ''rule_empty''] ?self"
    by (simp add: edge_refs_resolve_def example_typed_def)
  have s: "steps ?self = ?bs" by (simp add: example_typed_def)
  have d0: "deps_of (?bs ! 0) = [''text_value'', ''summary'']"
    by (simp add: deps_of_def report_step_def)
  have h7: "0 < length (steps ?self)" "''summary'' \<in> set (deps_of (steps ?self ! 0))"
    "''summary'' \<notin> produced_before (steps ?self) 0"
    unfolding s by (simp_all add: deps_of_def report_step_def)
  have h8: "well_ordered_steps ?gs" by code_simp
  note t = step_dependency_ordering [of "fields_accept ?self" ?bad ?self
      "PStr ''skill-spec/1.1''" "[PStr ''rule_empty'']", OF h4]
  from t h1 h2(1) h3 h5 h6 h7 have "\<exists>r k d'. validate (fields_accept ?self) ?bad = Inr r \<and> \<not> valid r
               \<and> schema_errors r = [step_dependency_error (step_id (steps ?self ! k)) d']
               \<and> k \<le> 0
               \<and> find (\<lambda>x. x \<notin> produced_before (steps ?self) k) (deps_of (steps ?self ! k))
                      = Some d'"
    by blast
  then obtain r d' where r: "validate (fields_accept ?self) ?bad = Inr r" "\<not> valid r"
    "schema_errors r = [step_dependency_error (step_id (?bs ! 0)) d']"
    "find (\<lambda>x. x \<notin> produced_before ?bs 0) (deps_of (?bs ! 0)) = Some d'"
    unfolding s by auto
  from r(4) have "d' = ''text_value''" unfolding d0 by simp
  with r(1-3) have a: "\<exists>r. validate (fields_accept ?self) ?bad = Inr r \<and> \<not> valid r
        \<and> schema_errors r = [step_dependency_error ''report'' ''text_value'']"
    by (simp add: report_step_def)
  from t h1 h2(1) h3 h5 h6 h1b h2(2) h4b h8
  have b: "\<exists>r. validate (fields_accept ?self') ?good = Inr r \<and> valid r \<and> schema_errors r = []"
    by blast
  have h7': "''summary'' \<notin> produced_before ?bs 0" by simp
  from h1 h3 h6 d0 h7' a h8 b show ?thesis unfolding s list_all_iff by blast
qed

text \<open>
  The claim without these conditions fails. With an edge case that covers an unknown rule, the
  only error names the edge case, not the step with the missing dependency. And a step whose
  \<open>output\<close> is the empty string does not make that name available to the step after it.
\<close>

theorem step_error_masked_or_empty_output:
  "''text_value'' \<in> set (deps_of ([check_step, load_step] ! 0))
   \<and> ''text_value'' \<notin> produced_before [check_step, load_step] 0
   \<and> validate (fields_accept (example_typed ''skill-spec/1.1'' (RulesList [example_rule])
                  [check_step, load_step] (Some ''nope'')))
         (example_spec (Some (PStr ''skill-spec/1.1'')) example_inputs example_rules
            (steps_dict [check_step, load_step]) (Some ''nope''))
       = Inr \<lparr>valid = False,
              schema_errors = [\<lparr>path = [],
                 message = ''Value error, '' @ unknown_rule_msg ''empty text'' ''nope'',
                 suggestion = None\<rparr>],
              schema_warnings = []\<rparr>
   \<and> step_output ([silent_step, silent_user] ! 0) = Some []
   \<and> deps_of ([silent_step, silent_user] ! 1) = [[]]
   \<and> validate (fields_accept (example_typed ''skill-spec/1.1'' (RulesList [example_rule])
                  [silent_step, silent_user] None))
         (example_spec (Some (PStr ''skill-spec/1.1'')) example_inputs example_rules
            (steps_dict [silent_step, silent_user]) None)
       = Inr \<lparr>valid = False,
              schema_errors = [step_dependency_error ''check'' []],
              schema_warnings = []\<rparr>"
  by code_simp

text \<open>
  C10, as the code has it. For a dictionary with \<open>spec_version = skill-spec/1.2\<close> that the typed
  model accepts, \<open>validate\<close> attaches exactly one warning, at path \<open>spec_version\<close>, that reports
  the version as unknown; the result is valid exactly when every required section is
  present, not null and not an empty list.
\<close>

theorem version_1_2_unknown_warning:
  assumes "map_of spec ''spec_version'' = Some (PStr ''skill-spec/1.2'')"
    and "model_validate fv spec = Inr []"
  shows "\<exists>r. validate fv spec = Inr r
           \<and> schema_warnings r = [unknown_version_warning ''skill-spec/1.2'']
           \<and> (valid r \<longleftrightarrow> (\<forall>s \<in> set REQUIRED_SECTIONS. section_filled spec s))"
proof -
  define r0 where "r0 = check_required_sections REQUIRED_SECTIONS spec
                          \<lparr>valid = True, schema_errors = [], schema_warnings = []\<rparr>"
  define r1 where "r1 = add_warning r0 ''spec_version'' (''Unknown spec version: '' @ ''skill-spec/1.2'')
                   (Some (''Use '' @ quoted ''skill-spec/1.0'' @ '' or '' @ quoted ''skill-spec/1.1''))"
  have w0: "schema_warnings r0 = []" and v0: "valid r0 \<longleftrightarrow> (\<forall>s \<in> set REQUIRED_SECTIONS. section_filled spec s)"
    by (simp_all add: r0_def check_required_sections_warnings check_required_sections_valid)
  have c: "check_spec_version spec r0 = Inr r1"
    using assms(1) by (simp add: check_spec_version_def r1_def)
  have w1: "schema_warnings r1 = [unknown_version_warning ''skill-spec/1.2'']"
    and v1: "valid r1 = valid r0"
    using w0 by (simp_all add: r1_def add_warning_def unknown_version_warning_def)
  have "validate fv spec = Inr r1"
    using c assms(2)
    by (simp add: validate_def r0_def [symmetric] validate_with_pydantic_def)
  with w1 v1 v0 show ?thesis by simp
qed

text \<open>The example specification at version 1.2.\<close>

theorem version_1_2_unknown_warning_witness:
  "map_of (example_spec (Some (PStr ''skill-spec/1.2'')) example_inputs example_rules example_steps None)
      ''spec_version'' = Some (PStr ''skill-spec/1.2'')
   \<and> model_validate (fields_accept (example_typed ''skill-spec/1.2'' (RulesList [example_rule])
                         [load_step, check_step] None))
        (example_spec (Some (PStr ''skill-spec/1.2'')) example_inputs example_rules example_steps None)
       = Inr []
   \<and> (\<exists>r. validate (fields_accept (example_typed ''skill-spec/1.2'' (RulesList [example_rule])
                         [load_step, check_step] None))
            (example_spec (Some (PStr ''skill-spec/1.2'')) example_inputs example_rules example_steps None)
            = Inr r
          \<and> schema_warnings r = [unknown_version_warning ''skill-spec/1.2''] \<and> valid r)"
proof -
  let ?spec = "example_spec (Some (PStr ''skill-spec/1.2'')) example_inputs example_rules example_steps None"
  let ?fv = "fields_accept (example_typed ''skill-spec/1.2'' (RulesList [example_rule])
                         [load_step, check_step] None)"
  have h1: "map_of ?spec ''spec_version'' = Some (PStr ''skill-spec/1.2'')"
    by (simp add: example_spec_def)
  have h2: "model_validate ?fv ?spec = Inr []" by code_simp
  have h3: "\<forall>s \<in> set REQUIRED_SECTIONS. section_filled ?spec s" by code_simp
  from version_1_2_unknown_warning [OF h1 h2] h1 h2 h3 show ?thesis by blast
qed

text \<open>
  The typed model accepts \<open>decision_rules: []\<close> (a list of rules has no minimum length there),
  but the section check of \<open>validate\<close> does not: the result is invalid.
\<close>

theorem version_1_2_empty_rules_invalid:
  "model_validate (fields_accept (example_typed ''skill-spec/1.2'' (RulesList [])
                         [load_step, check_step] None))
        (example_spec (Some (PStr ''skill-spec/1.2'')) example_inputs (PList []) example_steps None)
       = Inr []
   \<and> validate (fields_accept (example_typed ''skill-spec/1.2'' (RulesList [])
                         [load_step, check_step] None))
        (example_spec (Some (PStr ''skill-spec/1.2'')) example_inputs (PList []) example_steps None)
       = Inr \<lparr>valid = False, schema_errors = [empty_section_error ''decision_rules''],
              schema_warnings = [unknown_version_warning ''skill-spec/1.2'']\<rparr>"
  by code_simp

section \<open>Quality validation\<close>

lemma violations_add [simp]:
  "violations (add_violation r v) = violations r @ [v]"
  by (simp add: add_violation_def Let_def)






































end
